theory Spec2Isabelle
  imports Main
begin

section \<open>Byte strings and the Go library functions the engine calls\<close>

text \<open>
  Go's \<open>string\<close> and \<open>[]byte\<close> are byte sequences; both are modelled as \<open>string\<close>
  (a list of 8-bit characters). A nil slice and an empty slice are both \<open>[]\<close>: the
  engine only ever takes their length or appends them.
\<close>

definition CR :: char where "CR = CHR 0x0D"
definition LF :: char where "LF = CHR 0x0A"
definition CRLF :: string where "CRLF = [CHR 0x0D, CHR 0x0A]"

text \<open>\<open>strings.HasPrefix(s, prefix)\<close>: \<open>len(s) >= len(prefix) && s[:len(prefix)] == prefix\<close>.\<close>

definition HasPrefix :: "string \<Rightarrow> string \<Rightarrow> bool" where
  "HasPrefix s pre = (length pre \<le> length s \<and> take (length pre) s = pre)"

text \<open>
  \<open>fmt.Sprintf("%d", n)\<close>: the decimal digits of \<open>n\<close>, most significant first, with a
  leading minus sign for a negative number.
\<close>

definition digit :: "nat \<Rightarrow> char" where
  "digit d = ''0123456789'' ! d"

fun digits :: "nat \<Rightarrow> string" where
  "digits n = (if n < 10 then [digit n] else digits (n div 10) @ [digit (n mod 10)])"

declare digits.simps [simp del]

definition itoa :: "int \<Rightarrow> string" where
  "itoa n = (if n < 0 then CHR ''-'' # digits (nat (- n)) else digits (nat n))"

text \<open>Reading a digit string back (used only to state what \<open>itoa\<close> produces).\<close>

definition digit_value :: "char \<Rightarrow> nat" where
  "digit_value c = of_char c - 48"

definition decimal_value :: "string \<Rightarrow> nat" where
  "decimal_value s = foldl (\<lambda>acc c. 10 * acc + digit_value c) 0 s"

section \<open>Status registry (pkg/http/status/status.go)\<close>

definition OK :: int where "OK = 200"
definition MovedPermanently :: int where "MovedPermanently = 301"
definition BadRequest :: int where "BadRequest = 400"
definition NotFound :: int where "NotFound = 404"
definition StatusRequestTimeout :: int where "StatusRequestTimeout = 408"
definition InternalServerError :: int where "InternalServerError = 500"

definition statusText :: "(int \<times> string) list" where
  "statusText =
    [(200, ''OK''), (201, ''Created''), (202, ''Accepted''), (204, ''No Content''),
     (301, ''Moved Permanently''), (302, ''Found''), (400, ''Bad Request''),
     (401, ''Unauthorized''), (403, ''Forbidden''), (404, ''Not Found''),
     (405, ''Method Not Allowed''), (418, ''I'm a teapot''),
     (500, ''Internal Server Error''), (501, ''Not Implemented''), (502, ''Bad Gateway''),
     (503, ''Service Unavailable''), (408, ''Request Timeout'')]"

text \<open>\<open>status.Text\<close>: a lookup in a Go map, which yields the empty string on a miss.\<close>

definition Text :: "int \<Rightarrow> string" where
  "Text code = (case map_of statusText code of None \<Rightarrow> [] | Some s \<Rightarrow> s)"

definition StatusText :: "int \<Rightarrow> string" where
  "StatusText code = Text code"

section \<open>Requests and responses\<close>

text \<open>
  \<open>Request\<close> as in pkg/http/request.go. The TLS connection state is opaque to the
  engine (only compared with nil), so its type is a parameter.
\<close>

record 'tls Request =
  Method :: string
  Path :: string
  Version :: string
  Headers :: "string \<rightharpoonup> string"
  Body :: string
  TLS :: "'tls option"

text \<open>
  \<open>Response\<close>. Its fields \<open>Version\<close>, \<open>StatusText\<close>, \<open>Headers\<close> and \<open>Body\<close> carry the
  prefix \<open>Resp\<close> here, since the request's fields and the function \<open>StatusText\<close>
  already have those names. The header map is an allocated one, as \<open>NewResponse\<close>
  makes it: a response built as a bare struct literal has a nil map, and \<open>SetHeader\<close>
  panics on it.
\<close>

record Response =
  RespVersion :: string
  StatusCode :: int
  RespStatusText :: string
  RespHeaders :: "string \<rightharpoonup> string"
  RespBody :: string

definition NewResponse :: Response where
  "NewResponse =
    \<lparr>RespVersion = ''HTTP/1.1'', StatusCode = 0, RespStatusText = [],
     RespHeaders = Map.empty, RespBody = []\<rparr>"

definition SetStatus :: "Response \<Rightarrow> int \<Rightarrow> Response" where
  "SetStatus r code = r\<lparr>StatusCode := code\<rparr>"

definition SetHeader :: "Response \<Rightarrow> string \<Rightarrow> string \<Rightarrow> Response" where
  "SetHeader r key val = r\<lparr>RespHeaders := (RespHeaders r)(key \<mapsto> val)\<rparr>"

definition SetBody :: "Response \<Rightarrow> string \<Rightarrow> Response" where
  "SetBody r body =
    SetHeader (r\<lparr>RespBody := body\<rparr>) ''Content-Length'' (itoa (int (length body)))"

text \<open>
  Formatting ranges over the header map. Go visits every key of a map once, in an
  order it does not specify; the order of one run is the parameter \<open>ks\<close>, and the
  theorems below hold for every list \<open>ks\<close> that enumerates the keys once.
\<close>

definition headerLine :: "(string \<rightharpoonup> string) \<Rightarrow> string \<Rightarrow> string" where
  "headerLine hs key = key @ '': '' @ (case hs key of None \<Rightarrow> [] | Some v \<Rightarrow> v) @ CRLF"

definition statusLine :: "string \<Rightarrow> int \<Rightarrow> string \<Rightarrow> string" where
  "statusLine version code reason = version @ '' '' @ itoa code @ '' '' @ reason @ CRLF"

definition validOrder :: "string list \<Rightarrow> (string \<rightharpoonup> string) \<Rightarrow> bool" where
  "validOrder ks hs = (distinct ks \<and> set ks = dom hs)"

text \<open>\<open>Response.Write\<close>: the reason phrase comes from the status registry.\<close>

definition Write :: "string list \<Rightarrow> Response \<Rightarrow> string" where
  "Write ks r =
    statusLine (RespVersion r) (StatusCode r) (Text (StatusCode r))
    @ concat (map (headerLine (RespHeaders r)) ks) @ CRLF @ RespBody r"

text \<open>\<open>FormatResponse\<close>: the reason phrase is the response's own \<open>StatusText\<close> field.\<close>

definition FormatResponse :: "string list \<Rightarrow> Response \<Rightarrow> string" where
  "FormatResponse ks r =
    (let responseBytes =
       statusLine (RespVersion r) (StatusCode r) (RespStatusText r)
       @ concat (map (headerLine (RespHeaders r)) ks) @ CRLF
     in if length (RespBody r) > 0 then responseBytes @ RespBody r else responseBytes)"

definition NotFoundResponse :: Response where
  "NotFoundResponse =
    SetBody (NewResponse\<lparr>StatusCode := 404, RespStatusText := ''Not Found''\<rparr>)
      ''404 - Not Found''"

section \<open>Router and middleware\<close>

text \<open>
  A Go handler may print, read the clock or touch any other state, and so may a
  middleware, both when it wraps a handler and when the wrapped handler runs. The
  state they can touch is the world \<open>'w\<close>, passed in and returned.
\<close>

type_synonym ('tls, 'w) HandlerFunc = "'tls Request \<Rightarrow> 'w \<Rightarrow> Response \<times> 'w"

type_synonym ('tls, 'w) MiddlewareFunc =
  "('tls, 'w) HandlerFunc \<Rightarrow> 'w \<Rightarrow> ('tls, 'w) HandlerFunc \<times> 'w"

record ('tls, 'w) Router =
  routes :: "string \<rightharpoonup> (string \<rightharpoonup> ('tls, 'w) HandlerFunc)"
  middleware :: "('tls, 'w) MiddlewareFunc list"

definition NewRouter :: "('tls, 'w) Router" where
  "NewRouter = \<lparr>routes = Map.empty, middleware = []\<rparr>"

definition Use :: "('tls, 'w) Router \<Rightarrow> ('tls, 'w) MiddlewareFunc \<Rightarrow> ('tls, 'w) Router" where
  "Use r mw = r\<lparr>middleware := middleware r @ [mw]\<rparr>"

definition AddRoute ::
  "('tls, 'w) Router \<Rightarrow> string \<Rightarrow> string \<Rightarrow> ('tls, 'w) HandlerFunc \<Rightarrow> ('tls, 'w) Router" where
  "AddRoute r method path handler =
    (let handlers = (case routes r method of None \<Rightarrow> Map.empty | Some hs \<Rightarrow> hs)
     in r\<lparr>routes := (routes r)(method \<mapsto> handlers(path \<mapsto> handler))\<rparr>)"

definition shouldRedirectToHTTPS :: "('tls, 'w) Router \<Rightarrow> 'tls Request \<Rightarrow> bool" where
  "shouldRedirectToHTTPS r req = (\<not> HasPrefix (Path req) ''/static/'')"

definition redirectToHTTPS :: "('tls, 'w) Router \<Rightarrow> 'tls Request \<Rightarrow> Response" where
  "redirectToHTTPS r req =
    (let resp = NewResponse\<lparr>StatusCode := MovedPermanently,
                            RespStatusText := StatusText MovedPermanently\<rparr>;
         httpsURL = ''https://''
           @ (case Headers req ''Host'' of None \<Rightarrow> [] | Some h \<Rightarrow> h) @ Path req
     in SetHeader resp ''Location'' httpsURL)"

text \<open>
  The loop \<open>for i := len(r.middleware) - 1; i >= 0; i-- { handler = r.middleware[i](handler) }\<close>:
  \<open>applyMiddleware mws n\<close> runs the iterations \<open>i = n - 1, ..., 0\<close>.
\<close>

primrec applyMiddleware ::
  "('tls, 'w) MiddlewareFunc list \<Rightarrow> nat \<Rightarrow> ('tls, 'w) HandlerFunc \<Rightarrow> 'w
    \<Rightarrow> ('tls, 'w) HandlerFunc \<times> 'w" where
  "applyMiddleware mws 0 handler w = (handler, w)"
| "applyMiddleware mws (Suc i) handler w =
    (case (mws ! i) handler w of (handler', w') \<Rightarrow> applyMiddleware mws i handler' w')"

text \<open>\<open>Router.HandleRequest\<close> of the router with the HTTPS redirect (unnamed/part_006).\<close>

definition HandleRequest ::
  "('tls, 'w) Router \<Rightarrow> 'tls Request \<Rightarrow> 'w \<Rightarrow> Response \<times> 'w" where
  "HandleRequest r req w =
    (if TLS req = None \<and> shouldRedirectToHTTPS r req then (redirectToHTTPS r req, w)
     else
       (case routes r (Method req) of
          Some handlers \<Rightarrow>
            (case handlers (Path req) of
               Some handler \<Rightarrow>
                 (case applyMiddleware (middleware r) (length (middleware r)) handler w of
                    (handler', w') \<Rightarrow> handler' req w')
             | None \<Rightarrow> (NotFoundResponse, w))
        | None \<Rightarrow> (NotFoundResponse, w)))"

text \<open>
  \<open>Router.HandleRequest\<close> of the router that introduced middleware (unnamed/part_007):
  the same lookup and the same wrapping loop, without the redirect.
\<close>

definition HandleRequest_middleware ::
  "('tls, 'w) Router \<Rightarrow> 'tls Request \<Rightarrow> 'w \<Rightarrow> Response \<times> 'w" where
  "HandleRequest_middleware r req w =
    (case routes r (Method req) of
       Some handlers \<Rightarrow>
         (case handlers (Path req) of
            Some handler \<Rightarrow>
              (case applyMiddleware (middleware r) (length (middleware r)) handler w of
                 (handler', w') \<Rightarrow> handler' req w')
          | None \<Rightarrow> (NotFoundResponse, w))
     | None \<Rightarrow> (NotFoundResponse, w))"

text \<open>
  \<open>Router.HandleRequest\<close> of the first router (pkg/http/router.go): a route table only,
  no middleware and no redirect.
\<close>

record ('tls, 'w) BasicRouter =
  basicRoutes :: "string \<rightharpoonup> (string \<rightharpoonup> ('tls, 'w) HandlerFunc)"

definition HandleRequest_basic ::
  "('tls, 'w) BasicRouter \<Rightarrow> 'tls Request \<Rightarrow> 'w \<Rightarrow> Response \<times> 'w" where
  "HandleRequest_basic r req w =
    (case basicRoutes r (Method req) of
       Some handlers \<Rightarrow>
         (case handlers (Path req) of
            Some handler \<Rightarrow> handler req w
          | None \<Rightarrow> (NotFoundResponse, w))
     | None \<Rightarrow> (NotFoundResponse, w))"

text \<open>
  The handler registered for a method and a path, if any: the two nested map lookups
  of \<open>HandleRequest\<close>, used to state which requests hit a route.
\<close>

definition lookupHandler :: "(string \<rightharpoonup> (string \<rightharpoonup> 'h)) \<Rightarrow> string \<Rightarrow> string \<Rightarrow> 'h option" where
  "lookupHandler rts method path = (case rts method of None \<Rightarrow> None | Some hs \<Rightarrow> hs path)"

text \<open>
  Two middlewares and a handler whose only effect is to append to a log, as a test
  would write them, to observe the order in which a dispatch runs them.
\<close>

definition traceMiddleware :: "string \<Rightarrow> ('tls, string list) MiddlewareFunc" where
  "traceMiddleware name next w =
    (\<lambda>req w1. case next req (w1 @ [name @ ''-before'']) of
                 (resp, w2) \<Rightarrow> (resp, w2 @ [name @ ''-after'']),
     w)"

definition traceHandler :: "Response \<Rightarrow> ('tls, string list) HandlerFunc" where
  "traceHandler resp req w = (resp, w @ [''H''])"

section \<open>Connection pool (pkg/http/connpool.go)\<close>

text \<open>
  The buffered channel \<open>conns\<close> is a queue; \<open>make(chan net.Conn, maxConns)\<close> panics on a
  negative capacity. Every method holds the mutex for its whole body, so the methods
  are atomic steps on the pool. A method returns, next to the new pool, the
  connections it closed.
\<close>

record 'c ConnPool =
  conns :: "'c list"
  maxConns :: int

definition NewConnPool :: "int \<Rightarrow> 'c ConnPool option" where
  "NewConnPool n = (if n < 0 then None else Some \<lparr>conns = [], maxConns = n\<rparr>)"

text \<open>\<open>Get\<close>: a queued connection if there is one, otherwise whatever \<open>net.Dial\<close> returns.\<close>

definition Get ::
  "'c ConnPool \<Rightarrow> (string \<Rightarrow> string \<Rightarrow> 'e + 'c) \<Rightarrow> string \<Rightarrow> string \<Rightarrow> ('e + 'c) \<times> 'c ConnPool" where
  "Get p dial network address =
    (case conns p of
       c # cs \<Rightarrow> (Inr c, p\<lparr>conns := cs\<rparr>)
     | [] \<Rightarrow> (dial network address, p))"

text \<open>\<open>Put\<close>: the send succeeds when the channel has room; otherwise the default branch closes the connection.\<close>

definition Put :: "'c ConnPool \<Rightarrow> 'c \<Rightarrow> 'c ConnPool \<times> 'c list" where
  "Put p c =
    (if int (length (conns p)) < maxConns p then (p\<lparr>conns := conns p @ [c]\<rparr>, [])
     else (p, [c]))"

definition CloseIdleConnections :: "'c ConnPool \<Rightarrow> 'c ConnPool \<times> 'c list" where
  "CloseIdleConnections p = (p\<lparr>conns := []\<rparr>, conns p)"

datatype ('e, 'c) PoolOp = OpGet "'e + 'c" | OpPut 'c | OpDrain

fun poolStep :: "'c ConnPool \<Rightarrow> ('e, 'c) PoolOp \<Rightarrow> 'c ConnPool" where
  "poolStep p (OpGet d) = snd (Get p (\<lambda>_ _. d) [] [])"
| "poolStep p (OpPut c) = fst (Put p c)"
| "poolStep p OpDrain = fst (CloseIdleConnections p)"

definition poolRun :: "'c ConnPool \<Rightarrow> ('e, 'c) PoolOp list \<Rightarrow> 'c ConnPool" where
  "poolRun p ops = foldl poolStep p ops"

section \<open>String functions of the Go library\<close>

text \<open>\<open>strings.Index(s, sep)\<close> (and \<open>bytes.Index\<close>): the index of the first occurrence of \<open>sep\<close>, Go's \<open>-1\<close> being \<open>None\<close>.\<close>

fun Index :: "string \<Rightarrow> string \<Rightarrow> nat option" where
  "Index [] sep = (if sep = [] then Some 0 else None)"
| "Index (c # cs) sep =
    (if HasPrefix (c # cs) sep then Some 0 else map_option Suc (Index cs sep))"

text \<open>
  The loop of \<open>genSplit\<close> for a non-empty separator: cut at the first occurrence of
  \<open>sep\<close>, at most \<open>cuts\<close> times. \<open>SplitN(s, sep, n)\<close> with \<open>n > 0\<close> allows \<open>n - 1\<close> cuts.
  \<open>Split(s, sep)\<close> allows \<open>Count(s, sep)\<close> cuts, that is every cut the loop can make;
  there are at most \<open>len(s)\<close> of them. Every call of the engine passes a non-empty
  constant separator.
\<close>

fun genSplit :: "string \<Rightarrow> string \<Rightarrow> nat \<Rightarrow> string list" where
  "genSplit s sep 0 = [s]"
| "genSplit s sep (Suc cuts) =
    (case Index s sep of
       None \<Rightarrow> [s]
     | Some m \<Rightarrow> take m s # genSplit (drop (m + length sep) s) sep cuts)"

definition SplitN :: "string \<Rightarrow> string \<Rightarrow> nat \<Rightarrow> string list" where
  "SplitN s sep n = (if n = 0 then [] else genSplit s sep (n - 1))"

definition Split :: "string \<Rightarrow> string \<Rightarrow> string list" where
  "Split s sep = genSplit s sep (length s)"

text \<open>
  \<open>strings.TrimSpace\<close> removes leading and trailing white space as Unicode defines it:
  the ASCII bytes tab, LF, VT, FF, CR and space, and the UTF-8 encodings of U+0085,
  U+00A0, U+1680, U+2000 to U+200A, U+2028, U+2029, U+202F, U+205F and U+3000. Bytes that
  are not valid UTF-8 decode to U+FFFD, which is not white space.
\<close>

definition asciiSpace :: "char \<Rightarrow> bool" where
  "asciiSpace c = (c \<in> set [CHR 0x09, CHR 0x0A, CHR 0x0B, CHR 0x0C, CHR 0x0D, CHR 0x20])"

definition unicodeSpaces :: "string list" where
  "unicodeSpaces =
    [[CHR 0xC2, CHR 0x85], [CHR 0xC2, CHR 0xA0], [CHR 0xE1, CHR 0x9A, CHR 0x80],
     [CHR 0xE2, CHR 0x80, CHR 0x80], [CHR 0xE2, CHR 0x80, CHR 0x81],
     [CHR 0xE2, CHR 0x80, CHR 0x82], [CHR 0xE2, CHR 0x80, CHR 0x83],
     [CHR 0xE2, CHR 0x80, CHR 0x84], [CHR 0xE2, CHR 0x80, CHR 0x85],
     [CHR 0xE2, CHR 0x80, CHR 0x86], [CHR 0xE2, CHR 0x80, CHR 0x87],
     [CHR 0xE2, CHR 0x80, CHR 0x88], [CHR 0xE2, CHR 0x80, CHR 0x89],
     [CHR 0xE2, CHR 0x80, CHR 0x8A], [CHR 0xE2, CHR 0x80, CHR 0xA8],
     [CHR 0xE2, CHR 0x80, CHR 0xA9], [CHR 0xE2, CHR 0x80, CHR 0xAF],
     [CHR 0xE2, CHR 0x81, CHR 0x9F], [CHR 0xE3, CHR 0x80, CHR 0x80]]"

text \<open>The number of bytes of the white-space character that \<open>s\<close> starts with, 0 if it starts with none.\<close>

definition spaceLen :: "string list \<Rightarrow> string \<Rightarrow> nat" where
  "spaceLen encs s =
    (case s of
       [] \<Rightarrow> 0
     | c # _ \<Rightarrow>
         if asciiSpace c then 1
         else (case find (HasPrefix s) encs of None \<Rightarrow> 0 | Some u \<Rightarrow> length u))"

function trimLeft :: "string list \<Rightarrow> string \<Rightarrow> string" where
  "trimLeft encs s = (if spaceLen encs s = 0 then s else trimLeft encs (drop (spaceLen encs s) s))"
  by pat_completeness auto
termination
proof (relation "measure (\<lambda>(encs, s). length s)")
  show "wf (measure (\<lambda>(encs, s). length s))" by simp
next
  fix encs s
  assume "spaceLen encs s \<noteq> 0"
  then have "s \<noteq> []" by (auto simp: spaceLen_def)
  with \<open>spaceLen encs s \<noteq> 0\<close>
  show "((encs, drop (spaceLen encs s) s), (encs, s)) \<in> measure (\<lambda>(encs, s). length s)"
    by simp
qed

declare trimLeft.simps [simp del]

text \<open>Trailing white space is leading white space of the reversed string, with the encodings reversed.\<close>

definition TrimSpace :: "string \<Rightarrow> string" where
  "TrimSpace s = rev (trimLeft (map rev unicodeSpaces) (rev (trimLeft unicodeSpaces s)))"

section \<open>Buffered reading (Go's bufio.Reader over a bytes.Reader)\<close>

datatype read_error = EOF | ErrBufferFull

text \<open>
  \<open>bufio.NewReader(bytes.NewReader(data))\<close>. The state of the reader: \<open>buf\<close> is the
  buffered and not yet consumed part \<open>b.buf[b.r:b.w]\<close>, \<open>rd\<close> the bytes the
  underlying \<open>bytes.Reader\<close> still holds, \<open>errEOF\<close> says that the pending error \<open>b.err\<close> is \<open>io.EOF\<close>
  rather than nil (a \<open>bytes.Reader\<close> returns no other error). The buffer has room for
  \<open>bufSize\<close> bytes (\<open>defaultBufSize\<close>).
\<close>

record Reader =
  buf :: string
  rd :: string
  errEOF :: bool

definition bufSize :: nat where
  "bufSize = 4096"

definition NewReader :: "string \<Rightarrow> Reader" where
  "NewReader data = \<lparr>buf = [], rd = data, errEOF = False\<rparr>"

text \<open>
  \<open>fill\<close> is called with room left in the buffer. The underlying \<open>Read\<close> returns
  \<open>(0, io.EOF)\<close> when nothing is left and otherwise as many bytes as fit.
\<close>

definition fill :: "Reader \<Rightarrow> Reader" where
  "fill b =
    (if rd b = [] then b\<lparr>errEOF := True\<rparr>
     else b\<lparr>buf := buf b @ take (bufSize - length (buf b)) (rd b),
            rd := drop (bufSize - length (buf b)) (rd b)\<rparr>)"

function ReadSlice :: "Reader \<Rightarrow> char \<Rightarrow> string \<times> read_error option \<times> Reader" where
  "ReadSlice b delim =
    (if delim \<in> set (buf b) then
       (takeWhile (\<lambda>c. c \<noteq> delim) (buf b) @ [delim], None,
        b\<lparr>buf := tl (dropWhile (\<lambda>c. c \<noteq> delim) (buf b))\<rparr>)
     else if errEOF b then (buf b, Some EOF, b\<lparr>buf := [], errEOF := False\<rparr>)
     else if length (buf b) \<ge> bufSize then (buf b, Some ErrBufferFull, b\<lparr>buf := []\<rparr>)
     else ReadSlice (fill b) delim)"
  by pat_completeness auto
termination
proof (relation "measure (\<lambda>(b, delim). (if errEOF b then 0 else 1) + (bufSize - length (buf b)))")
  show "wf (measure (\<lambda>(b, delim). (if errEOF b then 0 else 1) + (bufSize - length (buf b))))"
    by simp
next
  fix b :: Reader and delim :: char
  assume "\<not> errEOF b" and "\<not> bufSize \<le> length (buf b)"
  then show "((fill b, delim), (b, delim))
      \<in> measure (\<lambda>(b, delim). (if errEOF b then 0 else 1) + (bufSize - length (buf b)))"
    by (cases "rd b") (auto simp: fill_def)
qed

declare ReadSlice.simps [simp del]

definition buffered :: "Reader \<Rightarrow> string" where
  "buffered b = buf b @ rd b"

lemma ReadSlice_full_shrinks:
  "ReadSlice b delim = (frag, Some ErrBufferFull, b')
    \<Longrightarrow> length (buffered b') < length (buffered b)"
proof (induction b delim rule: ReadSlice.induct)
  case (1 b delim)
  show ?case
  proof (cases "delim \<in> set (buf b) \<or> errEOF b")
    case True
    with "1.prems" show ?thesis by (auto simp: ReadSlice.simps [of b] split: if_splits)
  next
    case False
    show ?thesis
    proof (cases "bufSize \<le> length (buf b)")
      case True
      with False "1.prems" show ?thesis
        by (auto simp: ReadSlice.simps [of b] buffered_def bufSize_def)
    next
      case full: False
      with False "1.prems" have "ReadSlice (fill b) delim = (frag, Some ErrBufferFull, b')"
        by (simp add: ReadSlice.simps [of b])
      with "1.IH" False full have "length (buffered b') < length (buffered (fill b))" by simp
      moreover have "buffered (fill b) = buffered b"
        by (simp add: fill_def buffered_def)
      ultimately show ?thesis by simp
    qed
  qed
qed

text \<open>\<open>collectFragments\<close> as \<open>ReadString\<close> uses it: the full buffers and the final fragment, concatenated.\<close>

function ReadString :: "Reader \<Rightarrow> char \<Rightarrow> string \<times> read_error option \<times> Reader" where
  "ReadString b delim =
    (case ReadSlice b delim of
       (frag, e, b') \<Rightarrow>
         if e = None then (frag, None, b')
         else if e \<noteq> Some ErrBufferFull then (frag, e, b')
         else (case ReadString b' delim of (rest, e', b'') \<Rightarrow> (frag @ rest, e', b'')))"
  by pat_completeness auto
termination
  apply (relation "measure (\<lambda>(b, delim). length (buffered b))")
  apply simp
  apply (auto dest: sym simp: ReadSlice_full_shrinks)
  done

declare ReadString.simps [simp del]

text \<open>\<open>(*Reader).Read(p)\<close> with \<open>len(p) = n\<close>: at most one read of the underlying reader, and never more than what the buffer holds if it holds anything.\<close>

definition copyOut :: "Reader \<Rightarrow> nat \<Rightarrow> string \<times> read_error option \<times> Reader" where
  "copyOut b n = (take n (buf b), None, b\<lparr>buf := drop n (buf b)\<rparr>)"

definition Read :: "Reader \<Rightarrow> nat \<Rightarrow> string \<times> read_error option \<times> Reader" where
  "Read b n =
    (if n = 0 then
       (if length (buf b) > 0 then ([], None, b)
        else ([], if errEOF b then Some EOF else None, b\<lparr>errEOF := False\<rparr>))
     else if buf b = [] then
       (if errEOF b then ([], Some EOF, b\<lparr>errEOF := False\<rparr>)
        else if n \<ge> bufSize then
          (if rd b = [] then ([], Some EOF, b)
           else (take n (rd b), None, b\<lparr>rd := drop n (rd b)\<rparr>))
        else
          (if rd b = [] then ([], Some EOF, b)
           else copyOut (b\<lparr>buf := take bufSize (rd b), rd := drop bufSize (rd b)\<rparr>) n))
     else copyOut b n)"

lemma ReadSlice_ok_shrinks:
  "ReadSlice b delim = (frag, None, b') \<Longrightarrow> length (buffered b') < length (buffered b)"
proof (induction b delim rule: ReadSlice.induct)
  case (1 b delim)
  show ?case
  proof (cases "delim \<in> set (buf b)")
    case True
    then have "dropWhile (\<lambda>c. c \<noteq> delim) (buf b) \<noteq> []" by (simp add: dropWhile_eq_Nil_conv)
    moreover have "length (dropWhile (\<lambda>c. c \<noteq> delim) (buf b)) \<le> length (buf b)"
      by (rule length_dropWhile_le)
    ultimately have "length (tl (dropWhile (\<lambda>c. c \<noteq> delim) (buf b))) < length (buf b)"
      by (cases "dropWhile (\<lambda>c. c \<noteq> delim) (buf b)") auto
    with True "1.prems" show ?thesis
      by (auto simp: ReadSlice.simps [of b] buffered_def)
  next
    case False
    with "1.prems" have c: "\<not> errEOF b" "\<not> bufSize \<le> length (buf b)"
      and r: "ReadSlice (fill b) delim = (frag, None, b')"
      by (auto simp: ReadSlice.simps [of b] split: if_splits)
    with "1.IH" False have "length (buffered b') < length (buffered (fill b))" by simp
    moreover have "buffered (fill b) = buffered b"
      by (simp add: fill_def buffered_def)
    ultimately show ?thesis by simp
  qed
qed

lemma ReadString_ok_shrinks:
  "ReadString b delim = (line, None, b') \<Longrightarrow> length (buffered b') < length (buffered b)"
proof (induction b delim arbitrary: line b' rule: ReadString.induct)
  case (1 b delim)
  obtain frag e b1 where rs: "ReadSlice b delim = (frag, e, b1)" by (cases "ReadSlice b delim")
  show ?case
  proof (cases "e = Some ErrBufferFull")
    case True
    obtain rest e' b2 where r2: "ReadString b1 delim = (rest, e', b2)"
      by (cases "ReadString b1 delim")
    with rs True "1.prems" have "e' = None" "b2 = b'"
      by (auto simp: ReadString.simps [of b])
    with r2 have r3: "ReadString b1 delim = (rest, None, b')" by simp
    from True have "e \<noteq> None" "\<not> e \<noteq> Some ErrBufferFull" by simp_all
    from "1.IH" [OF rs [symmetric] refl this r3]
    have "length (buffered b') < length (buffered b1)" .
    with ReadSlice_full_shrinks rs True show ?thesis by fastforce
  next
    case False
    with rs "1.prems" have "e = None" "b1 = b'"
      by (auto simp: ReadString.simps [of b] split: if_splits)
    with rs ReadSlice_ok_shrinks show ?thesis by blast
  qed
qed

section \<open>Request parsing\<close>

text \<open>The errors \<open>ParseRequest\<close> returns, one constructor for each \<open>fmt.Errorf\<close> format.\<close>

datatype parse_error =
    ErrorReadingRequestLine read_error
  | InvalidRequestLine string
  | ErrorReadingHeader read_error
  | InvalidHeader string
  | ErrorReadingBody read_error
  | NoBodySeparator
  | EmptyRequest

text \<open>\<open>ParseRequest\<close> of pkg/http/request.go: the header loop.\<close>

function readHeaders ::
  "Reader \<Rightarrow> (string \<rightharpoonup> string) \<Rightarrow> parse_error + ((string \<rightharpoonup> string) \<times> Reader)" where
  "readHeaders reader hs =
    (case ReadString reader LF of
       (line, Some e, reader') \<Rightarrow> Inl (ErrorReadingHeader e)
     | (line, None, reader') \<Rightarrow>
         (let line = TrimSpace line in
          if line = [] then Inr (hs, reader')
          else
            (let parts = SplitN line '':'' 2 in
             if length parts \<noteq> 2 then Inl (InvalidHeader line)
             else readHeaders reader' (hs(TrimSpace (parts ! 0) \<mapsto> TrimSpace (parts ! 1))))))"
  by pat_completeness auto
termination
  apply (relation "measure (\<lambda>(reader, hs). length (buffered reader))")
  apply simp
  apply (auto dest!: sym [of "(_, _)" "ReadString _ _"] simp: ReadString_ok_shrinks)
  done

declare readHeaders.simps [simp del]

definition ParseRequest :: "string \<Rightarrow> 'tls option \<Rightarrow> parse_error + 'tls Request" where
  "ParseRequest data tlsConn =
    (case ReadString (NewReader data) LF of
       (requestLine, Some e, reader) \<Rightarrow> Inl (ErrorReadingRequestLine e)
     | (requestLine, None, reader) \<Rightarrow>
         (let requestLine = TrimSpace requestLine;
              parts = Split requestLine '' ''
          in if length parts \<noteq> 3 then Inl (InvalidRequestLine requestLine)
             else
               (case readHeaders reader Map.empty of
                  Inl e \<Rightarrow> Inl e
                | Inr (hs, reader) \<Rightarrow>
                    (let request =
                           \<lparr>Method = parts ! 0, Path = parts ! 1, Version = parts ! 2,
                            Headers = hs, Body = [], TLS = tlsConn\<rparr>;
                         contentLength = (case hs ''Content-Length'' of None \<Rightarrow> [] | Some v \<Rightarrow> v)
                     in if contentLength \<noteq> [] then
                          (case Read reader (length data) of
                             (bodyBuffer, Some e, reader) \<Rightarrow> Inl (ErrorReadingBody e)
                           | (bodyBuffer, None, reader) \<Rightarrow> Inr (request\<lparr>Body := bodyBuffer\<rparr>))
                        else Inr request))))"

text \<open>
  \<open>ParseRequest\<close> of unnamed/part_005, the parser before TLS: it cuts the buffer at the
  first CRLF CRLF and the header block at every CRLF. Its \<open>Request\<close> has no \<open>TLS\<close>
  field, which is \<open>None\<close> here.
\<close>

fun parseHeaderLines ::
  "string list \<Rightarrow> (string \<rightharpoonup> string) \<Rightarrow> parse_error + (string \<rightharpoonup> string)" where
  "parseHeaderLines [] hs = Inr hs"
| "parseHeaderLines (l # ls) hs =
    (let headerParts = SplitN l '': '' 2 in
     if length headerParts \<noteq> 2 then Inl (InvalidHeader l)
     else parseHeaderLines ls (hs(headerParts ! 0 \<mapsto> headerParts ! 1)))"

definition ParseRequest_split :: "string \<Rightarrow> parse_error + 'tls Request" where
  "ParseRequest_split data =
    (let parts = SplitN data (CRLF @ CRLF) 2 in
     if length parts \<noteq> 2 then Inl NoBodySeparator
     else
       (let lines = Split (parts ! 0) CRLF in
        if length lines < 1 then Inl EmptyRequest
        else
          (let requestLineParts = Split (lines ! 0) '' '' in
           if length requestLineParts \<noteq> 3 then Inl (InvalidRequestLine (lines ! 0))
           else
             (case parseHeaderLines (tl lines) Map.empty of
                Inl e \<Rightarrow> Inl e
              | Inr hs \<Rightarrow>
                  Inr \<lparr>Method = requestLineParts ! 0, Path = requestLineParts ! 1,
                       Version = requestLineParts ! 2, Headers = hs, Body = parts ! 1,
                       TLS = None\<rparr>))))"

text \<open>
  Modelled from the spec: the request wire format of section 6,
  \<open><METHOD> <PATH> <VERSION>\r\n(<Name>: <Value>\r\n)*\r\n<body-bytes>\<close>. The repository
  has no function that serializes a request.
\<close>

definition serializeHeader :: "string \<times> string \<Rightarrow> string" where
  "serializeHeader h = fst h @ '': '' @ snd h @ CRLF"

definition serialize :: "string \<Rightarrow> string \<Rightarrow> string \<Rightarrow> (string \<times> string) list \<Rightarrow> string \<Rightarrow> string" where
  "serialize method path version hdrs body =
    method @ '' '' @ path @ '' '' @ version @ CRLF
    @ concat (map serializeHeader hdrs) @ CRLF @ body"

text \<open>
  Modelled from the spec: the whitespace-separated tokens of a line, the maximal runs
  of bytes that are not ASCII white space. \<open>ParseRequest\<close> does not call such a function;
  it calls \<open>strings.Split(line, " ")\<close>.
\<close>

fun tokensFrom :: "string \<Rightarrow> string \<Rightarrow> string list" where
  "tokensFrom cur [] = (if cur = [] then [] else [cur])"
| "tokensFrom cur (c # cs) =
    (if asciiSpace c then (if cur = [] then tokensFrom [] cs else cur # tokensFrom [] cs)
     else tokensFrom (cur @ [c]) cs)"

definition whitespaceTokens :: "string \<Rightarrow> string list" where
  "whitespaceTokens line = tokensFrom [] line"

section \<open>Lemmas about buffered reading\<close>

definition wfReader :: "Reader \<Rightarrow> bool" where
  "wfReader b = (rd b = [] \<or> \<not> errEOF b)"

lemma buffered_fill [simp]: "buffered (fill b) = buffered b"
  by (simp add: fill_def buffered_def)

lemma wfReader_fill: "wfReader b \<Longrightarrow> wfReader (fill b)"
  by (auto simp: fill_def wfReader_def)

lemma takeWhile_line: "d \<notin> set l \<Longrightarrow> takeWhile (\<lambda>c. c \<noteq> d) (l @ d # r) = l"
  by (induction l) auto

lemma dropWhile_line: "d \<notin> set l \<Longrightarrow> dropWhile (\<lambda>c. c \<noteq> d) (l @ d # r) = d # r"
  by (induction l) auto

lemma takeWhile_skip: "d \<notin> set l \<Longrightarrow> takeWhile (\<lambda>c. c \<noteq> d) (l @ r) = l @ takeWhile (\<lambda>c. c \<noteq> d) r"
  by (induction l) auto

lemma dropWhile_skip: "d \<notin> set l \<Longrightarrow> dropWhile (\<lambda>c. c \<noteq> d) (l @ r) = dropWhile (\<lambda>c. c \<noteq> d) r"
  by (induction l) auto

lemma split_first:
  assumes "d \<in> set s"
  shows "s = takeWhile (\<lambda>c. c \<noteq> d) s @ d # tl (dropWhile (\<lambda>c. c \<noteq> d) s)"
    and "d \<notin> set (takeWhile (\<lambda>c. c \<noteq> d) s)"
proof -
  from assms have "dropWhile (\<lambda>c. c \<noteq> d) s \<noteq> []" by (simp add: dropWhile_eq_Nil_conv)
  then obtain x xs where dw: "dropWhile (\<lambda>c. c \<noteq> d) s = x # xs" by (cases "dropWhile (\<lambda>c. c \<noteq> d) s") auto
  then have "x = d" using hd_dropWhile [of "\<lambda>c. c \<noteq> d" s] by auto
  with dw have "takeWhile (\<lambda>c. c \<noteq> d) s @ d # tl (dropWhile (\<lambda>c. c \<noteq> d) s) = takeWhile (\<lambda>c. c \<noteq> d) s @ dropWhile (\<lambda>c. c \<noteq> d) s"
    by simp
  then show "s = takeWhile (\<lambda>c. c \<noteq> d) s @ d # tl (dropWhile (\<lambda>c. c \<noteq> d) s)" by simp
  show "d \<notin> set (takeWhile (\<lambda>c. c \<noteq> d) s)" by (auto dest: set_takeWhileD)
qed

lemma ReadSlice_spec:
  assumes "wfReader b" and "ReadSlice b d = (frag, e, b')"
  shows "wfReader b' \<and>
    (case e of
       None \<Rightarrow> d \<in> set (buffered b) \<and> frag = takeWhile (\<lambda>c. c \<noteq> d) (buffered b) @ [d]
                \<and> buffered b' = tl (dropWhile (\<lambda>c. c \<noteq> d) (buffered b))
     | Some ErrBufferFull \<Rightarrow> d \<notin> set frag \<and> buffered b = frag @ buffered b'
     | Some EOF \<Rightarrow> d \<notin> set (buffered b) \<and> frag = buffered b \<and> buffered b' = [])"
  using assms
proof (induction b d rule: ReadSlice.induct)
  case (1 b delim)
  show ?case
  proof (cases "delim \<in> set (buf b)")
    case True
    from split_first [OF True] obtain l r where br: "buf b = l @ delim # r" and nl: "delim \<notin> set l"
      by blast
    with True "1.prems" show ?thesis
      by (auto simp: ReadSlice.simps [of b] buffered_def wfReader_def takeWhile_line dropWhile_line)
  next
    case nd: False
    show ?thesis
    proof (cases "errEOF b")
      case True
      with nd "1.prems" show ?thesis
        by (auto simp: ReadSlice.simps [of b] buffered_def wfReader_def)
    next
      case ne: False
      show ?thesis
      proof (cases "bufSize \<le> length (buf b)")
        case True
        with nd ne "1.prems" show ?thesis
          by (auto simp: ReadSlice.simps [of b] buffered_def wfReader_def)
      next
        case False
        with nd ne "1.prems" have r: "ReadSlice (fill b) delim = (frag, e, b')"
          by (simp add: ReadSlice.simps [of b])
        from "1.IH" [OF nd _ False wfReader_fill [OF "1.prems"(1)] r] ne
        show ?thesis unfolding buffered_fill by simp
      qed
    qed
  qed
qed

lemma ReadString_spec:
  assumes "wfReader b" and "ReadString b d = (line, e, b')"
  shows "wfReader b' \<and>
    (case e of
       None \<Rightarrow> d \<in> set (buffered b) \<and> line = takeWhile (\<lambda>c. c \<noteq> d) (buffered b) @ [d]
                \<and> buffered b' = tl (dropWhile (\<lambda>c. c \<noteq> d) (buffered b))
     | Some er \<Rightarrow> er = EOF \<and> d \<notin> set (buffered b) \<and> line = buffered b \<and> buffered b' = [])"
  using assms
proof (induction b d arbitrary: line e b' rule: ReadString.induct)
  case (1 b delim)
  obtain frag e1 b1 where rs: "ReadSlice b delim = (frag, e1, b1)" by (cases "ReadSlice b delim")
  note sp = ReadSlice_spec [OF "1.prems"(1) rs]
  show ?case
  proof (cases "e1 = Some ErrBufferFull")
    case True
    obtain rest e2 b2 where r2: "ReadString b1 delim = (rest, e2, b2)"
      by (cases "ReadString b1 delim")
    from True have c: "e1 \<noteq> None" "\<not> e1 \<noteq> Some ErrBufferFull" by simp_all
    from sp have w1: "wfReader b1" by simp
    note ih = "1.IH" [OF rs [symmetric] refl c w1 r2]
    from rs True r2 "1.prems"(2) have eq: "line = frag @ rest" "e = e2" "b' = b2"
      by (auto simp: ReadString.simps [of b])
    from sp True have f: "delim \<notin> set frag" "buffered b = frag @ buffered b1" by simp_all
    show ?thesis
    proof (cases e2)
      case None
      with ih have "delim \<in> set (buffered b1)"
        and "rest = takeWhile (\<lambda>c. c \<noteq> delim) (buffered b1) @ [delim]"
        and "buffered b2 = tl (dropWhile (\<lambda>c. c \<noteq> delim) (buffered b1))" and "wfReader b2"
        by simp_all
      with f eq None show ?thesis
        by (auto simp: takeWhile_skip dropWhile_skip)
    next
      case (Some er)
      with ih f eq show ?thesis by auto
    qed
  next
    case False
    with rs "1.prems"(2) have eq: "line = frag" "e = e1" "b' = b1"
      by (auto simp: ReadString.simps [of b] split: if_splits)
    with sp False show ?thesis by (cases e1) (auto split: read_error.splits)
  qed
qed

lemma ReadString_line:
  assumes "wfReader b" and "buffered b = l @ d # r" and "d \<notin> set l"
  shows "\<exists>b'. ReadString b d = (l @ [d], None, b') \<and> buffered b' = r \<and> wfReader b'"
proof -
  obtain line e b' where rs: "ReadString b d = (line, e, b')" by (cases "ReadString b d")
  from ReadString_spec [OF assms(1) rs] assms(2,3) rs show ?thesis
    by (cases e) (auto simp: takeWhile_line dropWhile_line)
qed

lemma ReadString_no_line:
  assumes "wfReader b" and "d \<notin> set (buffered b)"
  shows "\<exists>line b'. ReadString b d = (line, Some EOF, b')"
proof -
  obtain line e b' where rs: "ReadString b d = (line, e, b')" by (cases "ReadString b d")
  from ReadString_spec [OF assms(1) rs] assms(2) rs show ?thesis
    by (cases e) auto
qed

section \<open>Lemmas about splitting and trimming\<close>

subsection \<open>Index and the split functions\<close>

lemma Index_char:
  "Index s [c] = (if c \<in> set s then Some (length (takeWhile (\<lambda>x. x \<noteq> c) s)) else None)"
  by (induction s) (auto simp: HasPrefix_def)

lemma SplitN_char:
  "SplitN s [c] 2 =
     (if c \<in> set s then [takeWhile (\<lambda>x. x \<noteq> c) s, tl (dropWhile (\<lambda>x. x \<noteq> c) s)] else [s])"
proof -
  have "take (length (takeWhile (\<lambda>x. x \<noteq> c) s)) s = takeWhile (\<lambda>x. x \<noteq> c) s"
    by (simp add: takeWhile_eq_take [symmetric])
  moreover have "drop (Suc (length (takeWhile (\<lambda>x. x \<noteq> c) s))) s = tl (dropWhile (\<lambda>x. x \<noteq> c) s)"
    by (simp add: dropWhile_eq_drop drop_Suc tl_drop)
  ultimately show ?thesis
    by (simp add: SplitN_def Index_char numeral_2_eq_2)
qed

lemma genSplit_char_none: "c \<notin> set s \<Longrightarrow> genSplit s [c] n = [s]"
  by (cases n) (simp_all add: Index_char)

lemma genSplit_char_cut:
  "c \<notin> set l \<Longrightarrow> genSplit (l @ c # r) [c] (Suc n) = l # genSplit r [c] n"
  by (simp add: Index_char takeWhile_line)

lemma Split_three:
  assumes "CHR '' '' \<notin> set m" "CHR '' '' \<notin> set p" "CHR '' '' \<notin> set v"
  shows "Split (m @ '' '' @ p @ '' '' @ v) '' '' = [m, p, v]"
proof -
  have "length (m @ '' '' @ p @ '' '' @ v) = Suc (Suc (length m + length p + length v))"
    by simp
  then show ?thesis
    using assms unfolding Split_def
    by (simp add: genSplit_char_cut genSplit_char_none del: genSplit.simps)
qed

subsection \<open>TrimSpace\<close>

definition asciiGraphic :: "char \<Rightarrow> bool" where
  "asciiGraphic c = (of_char c < (128 :: nat) \<and> \<not> asciiSpace c)"

lemma spaceLen_graphic:
  assumes "asciiGraphic c"
  shows "spaceLen unicodeSpaces (c # s) = 0" and "spaceLen (map rev unicodeSpaces) (c # s) = 0"
proof -
  from assms have c: "\<not> asciiSpace c" "of_char c < (128 :: nat)" by (simp_all add: asciiGraphic_def)
  have "\<forall>u \<in> set unicodeSpaces. \<forall>x \<in> set u. of_char x \<ge> (128 :: nat)"
    by (simp add: unicodeSpaces_def)
  then have n: "\<not> HasPrefix (c # s) u" if "u \<in> set unicodeSpaces \<or> u \<in> set (map rev unicodeSpaces)" for u
  proof -
    from that have "u \<noteq> []" by (auto simp: unicodeSpaces_def)
    moreover from that \<open>\<forall>u \<in> set unicodeSpaces. \<forall>x \<in> set u. of_char x \<ge> (128 :: nat)\<close>
    have "\<forall>x \<in> set u. of_char x \<ge> (128 :: nat)" by auto
    ultimately show ?thesis using c(2) by (cases u) (auto simp: HasPrefix_def)
  qed
  then have "find (HasPrefix (c # s)) unicodeSpaces = None"
    and "find (HasPrefix (c # s)) (map rev unicodeSpaces) = None"
    by (simp_all only: find_None_iff) blast+
  with c show "spaceLen unicodeSpaces (c # s) = 0" and "spaceLen (map rev unicodeSpaces) (c # s) = 0"
    by (simp_all add: spaceLen_def)
qed

lemma trimLeft_space: "asciiSpace c \<Longrightarrow> trimLeft encs (c # s) = trimLeft encs s"
  by (subst trimLeft.simps) (simp add: spaceLen_def)

lemma trimLeft_spaces: "\<forall>c \<in> set ws. asciiSpace c \<Longrightarrow> trimLeft encs (ws @ s) = trimLeft encs s"
  by (induction ws) (simp_all add: trimLeft_space)

lemma trimLeft_Nil [simp]: "trimLeft encs [] = []"
  by (subst trimLeft.simps) (simp add: spaceLen_def)

lemma trimLeft_graphic:
  assumes "asciiGraphic c"
  shows "trimLeft unicodeSpaces (c # s) = c # s"
    and "trimLeft (map rev unicodeSpaces) (c # s) = c # s"
  by (subst trimLeft.simps, simp add: spaceLen_graphic [OF assms])+

lemma TrimSpace_spaces: "\<forall>c \<in> set ws. asciiSpace c \<Longrightarrow> TrimSpace ws = []"
  using trimLeft_spaces [of ws unicodeSpaces "[]"] by (simp add: TrimSpace_def)

text \<open>A string that begins and ends with an ASCII character other than white space.\<close>

definition trimmed :: "string \<Rightarrow> bool" where
  "trimmed s = (s \<noteq> [] \<and> asciiGraphic (hd s) \<and> asciiGraphic (last s))"

lemma TrimSpace_trimmed:
  assumes "trimmed s" and "\<forall>c \<in> set ws1. asciiSpace c" and "\<forall>c \<in> set ws2. asciiSpace c"
  shows "TrimSpace (ws1 @ s @ ws2) = s"
proof -
  from assms(1) obtain c s' where s: "s = c # s'" and c: "asciiGraphic c"
    by (cases s) (auto simp: trimmed_def)
  from assms(1) obtain d r where r: "rev s = d # r" and d: "asciiGraphic d"
    by (cases "rev s") (auto simp: trimmed_def hd_rev)
  have "trimLeft unicodeSpaces (ws1 @ s @ ws2) = s @ ws2"
    using assms(2) s c by (simp add: trimLeft_spaces trimLeft_graphic)
  moreover have "trimLeft (map rev unicodeSpaces) (rev (s @ ws2)) = rev s"
    using assms(3) r d by (simp add: trimLeft_spaces trimLeft_graphic)
  ultimately show ?thesis by (simp add: TrimSpace_def)
qed

lemma asciiSpace_simps [simp]:
  "asciiSpace CR" "asciiSpace LF" "asciiSpace (CHR '' '')"
  by (simp_all add: asciiSpace_def CR_def LF_def)

section \<open>Lemmas about the header loop of pkg/http/request.go\<close>

text \<open>What one turn of the header loop stores for a line that holds a colon.\<close>

definition storeHeader :: "(string \<rightharpoonup> string) \<Rightarrow> string \<Rightarrow> (string \<rightharpoonup> string)" where
  "storeHeader hs line =
    hs(TrimSpace (takeWhile (\<lambda>c. c \<noteq> CHR '':'') (TrimSpace line)) \<mapsto>
       TrimSpace (tl (dropWhile (\<lambda>c. c \<noteq> CHR '':'') (TrimSpace line))))"

text \<open>A line of the header block that the loop accepts as a header: no LF inside, not blank after trimming, and with a colon.\<close>

definition headerLineOK :: "string \<Rightarrow> bool" where
  "headerLineOK h =
    (LF \<notin> set h \<and> TrimSpace (h @ [LF]) \<noteq> [] \<and> CHR '':'' \<in> set (TrimSpace (h @ [LF])))"

definition blankLine :: "string \<Rightarrow> bool" where
  "blankLine l = (LF \<notin> set l \<and> TrimSpace (l @ [LF]) = [])"

definition withLF :: "string list \<Rightarrow> string list" where
  "withLF ls = map (\<lambda>l. l @ [LF]) ls"

lemma readHeaders_step_blank:
  assumes "ReadString b LF = (line, None, b1)" and "TrimSpace line = []"
  shows "readHeaders b m = Inr (m, b1)"
  using assms by (subst readHeaders.simps) simp

lemma readHeaders_step_header:
  assumes "ReadString b LF = (line, None, b1)" and "TrimSpace line \<noteq> []"
    and "CHR '':'' \<in> set (TrimSpace line)"
  shows "readHeaders b m = readHeaders b1 (storeHeader m line)"
  using assms
  by (subst readHeaders.simps) (simp add: SplitN_char storeHeader_def Let_def)

lemma readHeaders_step_bad:
  assumes "ReadString b LF = (line, None, b1)" and "TrimSpace line \<noteq> []"
    and "CHR '':'' \<notin> set (TrimSpace line)"
  shows "readHeaders b m = Inl (InvalidHeader (TrimSpace line))"
  using assms
  by (subst readHeaders.simps) (simp add: SplitN_char Let_def)

lemma readHeaders_step_eof:
  assumes "ReadString b LF = (line, Some e, b1)"
  shows "readHeaders b m = Inl (ErrorReadingHeader e)"
  using assms by (subst readHeaders.simps) simp

lemma readHeaders_lines:
  assumes "wfReader b"
    and "buffered b = concat (withLF hs) @ blank @ LF # rest"
    and "\<forall>h \<in> set hs. headerLineOK h" and "blankLine blank"
  shows "\<exists>b'. readHeaders b m = Inr (foldl storeHeader m (withLF hs), b')
           \<and> buffered b' = rest \<and> wfReader b'"
  using assms
proof (induction hs arbitrary: b m)
  case Nil
  then have "buffered b = blank @ LF # rest" "LF \<notin> set blank"
    by (simp_all add: withLF_def blankLine_def)
  from ReadString_line [OF Nil.prems(1) this] obtain b' where
    "ReadString b LF = (blank @ [LF], None, b')" "buffered b' = rest" "wfReader b'" by blast
  with Nil.prems(4) show ?case
    by (auto simp: readHeaders_step_blank blankLine_def withLF_def)
next
  case (Cons h hs)
  from Cons.prems(3) have h: "LF \<notin> set h" "TrimSpace (h @ [LF]) \<noteq> []"
    "CHR '':'' \<in> set (TrimSpace (h @ [LF]))" by (simp_all add: headerLineOK_def)
  from Cons.prems(2) have "buffered b = h @ LF # (concat (withLF hs) @ blank @ LF # rest)"
    by (simp add: withLF_def)
  from ReadString_line [OF Cons.prems(1) this h(1)] obtain b1 where
    r: "ReadString b LF = (h @ [LF], None, b1)"
    and b1: "buffered b1 = concat (withLF hs) @ blank @ LF # rest" "wfReader b1" by blast
  from Cons.prems(3) have "\<forall>h \<in> set hs. headerLineOK h" by simp
  from Cons.IH [OF b1(2) b1(1) this Cons.prems(4), of "storeHeader m (h @ [LF])"]
  show ?case
    by (simp add: readHeaders_step_header [OF r h(2) h(3)] withLF_def)
qed

lemma readHeaders_bad_line:
  assumes "wfReader b"
    and "buffered b = concat (withLF hs) @ bad @ LF # rest"
    and "\<forall>h \<in> set hs. headerLineOK h"
    and "LF \<notin> set bad" and "TrimSpace (bad @ [LF]) \<noteq> []"
    and "CHR '':'' \<notin> set (TrimSpace (bad @ [LF]))"
  shows "readHeaders b m = Inl (InvalidHeader (TrimSpace (bad @ [LF])))"
  using assms
proof (induction hs arbitrary: b m)
  case Nil
  then have "buffered b = bad @ LF # rest" by (simp add: withLF_def)
  from ReadString_line [OF Nil.prems(1) this Nil.prems(4)] obtain b' where
    "ReadString b LF = (bad @ [LF], None, b')" by blast
  from readHeaders_step_bad [OF this Nil.prems(5,6)] show ?case .
next
  case (Cons h hs)
  from Cons.prems(3) have h: "LF \<notin> set h" "TrimSpace (h @ [LF]) \<noteq> []"
    "CHR '':'' \<in> set (TrimSpace (h @ [LF]))" by (simp_all add: headerLineOK_def)
  from Cons.prems(2) have "buffered b = h @ LF # (concat (withLF hs) @ bad @ LF # rest)"
    by (simp add: withLF_def)
  from ReadString_line [OF Cons.prems(1) this h(1)] obtain b1 where
    r: "ReadString b LF = (h @ [LF], None, b1)"
    and b1: "buffered b1 = concat (withLF hs) @ bad @ LF # rest" "wfReader b1" by blast
  from Cons.prems(3) have "\<forall>h \<in> set hs. headerLineOK h" by simp
  from Cons.IH [OF b1(2) b1(1) this Cons.prems(4,5,6), of "storeHeader m (h @ [LF])"]
  show ?case
    by (simp add: readHeaders_step_header [OF r h(2) h(3)])
qed

lemma readHeaders_Inr:
  assumes "wfReader b" and "readHeaders b m = Inr (m', b')"
  shows "\<exists>hs blank. buffered b = concat (withLF hs) @ blank @ LF # buffered b'
           \<and> (\<forall>h \<in> set hs. headerLineOK h) \<and> blankLine blank
           \<and> m' = foldl storeHeader m (withLF hs) \<and> wfReader b'"
  using assms
proof (induction b m rule: readHeaders.induct)
  case (1 reader hs0)
  obtain line e b1 where rs: "ReadString reader LF = (line, e, b1)"
    by (cases "ReadString reader LF")
  from "1.prems"(2) rs have e: "e = None"
    by (cases e) (simp_all add: readHeaders_step_eof)
  from ReadString_spec [OF "1.prems"(1) rs] e
  have sp: "wfReader b1" "LF \<in> set (buffered reader)"
    "line = takeWhile (\<lambda>c. c \<noteq> LF) (buffered reader) @ [LF]"
    "buffered b1 = tl (dropWhile (\<lambda>c. c \<noteq> LF) (buffered reader))" by simp_all
  define l where "l = takeWhile (\<lambda>c. c \<noteq> LF) (buffered reader)"
  from split_first [OF sp(2)] sp(3,4)
  have dec: "buffered reader = l @ LF # buffered b1" and nl: "LF \<notin> set l" and line: "line = l @ [LF]"
    by (simp_all add: l_def)
  show ?case
  proof (cases "TrimSpace line = []")
    case True
    with rs e "1.prems"(2) have "m' = hs0" "b' = b1"
      by (simp_all add: readHeaders_step_blank)
    with dec nl line True sp(1) have
      "buffered reader = concat (withLF []) @ l @ LF # buffered b'
        \<and> (\<forall>h \<in> set []. headerLineOK h) \<and> blankLine l
        \<and> m' = foldl storeHeader hs0 (withLF []) \<and> wfReader b'"
      by (simp add: withLF_def blankLine_def)
    then show ?thesis by blast
  next
    case False
    show ?thesis
    proof (cases "CHR '':'' \<in> set (TrimSpace line)")
      case c: True
      from rs e have rs': "ReadString reader LF = (line, None, b1)" by simp
      from "1.prems"(2) readHeaders_step_header [OF rs' False c]
      have rec: "readHeaders b1 (storeHeader hs0 line) = Inr (m', b')" by simp
      have len: "\<not> length (SplitN (TrimSpace line) '':'' 2) \<noteq> 2" using c by (simp add: SplitN_char)
      have st: "hs0(TrimSpace (SplitN (TrimSpace line) '':'' 2 ! 0) \<mapsto>
                    TrimSpace (SplitN (TrimSpace line) '':'' 2 ! 1)) = storeHeader hs0 line"
        using c by (simp add: SplitN_char storeHeader_def)
      note ih0 = "1.IH" [OF rs' [symmetric] refl refl refl False refl len sp(1), unfolded st]
      from ih0 [OF rec]
      obtain hs blank where
        ih: "buffered b1 = concat (withLF hs) @ blank @ LF # buffered b'"
          "\<forall>h \<in> set hs. headerLineOK h" "blankLine blank"
          "m' = foldl storeHeader (storeHeader hs0 line) (withLF hs)" "wfReader b'"
        by blast
      from False c nl line have "headerLineOK l" by (simp add: headerLineOK_def)
      with ih dec line have
        "buffered reader = concat (withLF (l # hs)) @ blank @ LF # buffered b'
          \<and> (\<forall>h \<in> set (l # hs). headerLineOK h) \<and> blankLine blank
          \<and> m' = foldl storeHeader hs0 (withLF (l # hs)) \<and> wfReader b'"
        by (simp add: withLF_def)
      then show ?thesis by blast
    next
      case c: False
      from rs e have rs': "ReadString reader LF = (line, None, b1)" by simp
      from "1.prems"(2) readHeaders_step_bad [OF rs' False c] show ?thesis by simp
    qed
  qed
qed

subsection \<open>The pending error and small buffers\<close>

lemma ReadSlice_noErr:
  assumes "\<not> errEOF b" and "ReadSlice b d = (frag, e, b')"
  shows "\<not> errEOF b'"
  using assms
proof (induction b d rule: ReadSlice.induct)
  case (1 b delim)
  show ?case
  proof (cases "delim \<in> set (buf b) \<or> bufSize \<le> length (buf b)")
    case True
    with "1.prems" show ?thesis
      by (auto simp: ReadSlice.simps [of b] split: if_splits)
  next
    case False
    with "1.prems" have r: "ReadSlice (fill b) delim = (frag, e, b')"
      by (simp add: ReadSlice.simps [of b])
    show ?thesis
    proof (cases "rd b = []")
      case True
      then have "errEOF (fill b)" "buf (fill b) = buf b" by (simp_all add: fill_def)
      with r False show ?thesis by (auto simp: ReadSlice.simps [of "fill b"])
    next
      case ne: False
      with "1.prems"(1) have "\<not> errEOF (fill b)" by (simp add: fill_def)
      from "1.IH" [OF _ _ _ this r] False "1.prems"(1) show ?thesis by simp
    qed
  qed
qed

lemma ReadString_noErr:
  assumes "\<not> errEOF b" and "ReadString b d = (line, e, b')"
  shows "\<not> errEOF b'"
  using assms
proof (induction b d arbitrary: line e b' rule: ReadString.induct)
  case (1 b delim)
  obtain frag e1 b1 where rs: "ReadSlice b delim = (frag, e1, b1)" by (cases "ReadSlice b delim")
  from ReadSlice_noErr [OF "1.prems"(1) rs] have n1: "\<not> errEOF b1" .
  show ?case
  proof (cases "e1 = Some ErrBufferFull")
    case True
    obtain rest e2 b2 where r2: "ReadString b1 delim = (rest, e2, b2)"
      by (cases "ReadString b1 delim")
    from True have c: "e1 \<noteq> None" "\<not> e1 \<noteq> Some ErrBufferFull" by simp_all
    from rs True r2 "1.prems"(2) have "b' = b2" by (auto simp: ReadString.simps [of b])
    with "1.IH" [OF rs [symmetric] refl c n1 r2] show ?thesis by simp
  next
    case False
    with rs "1.prems"(2) have "b' = b1"
      by (auto simp: ReadString.simps [of b] split: if_splits)
    with n1 show ?thesis by simp
  qed
qed

lemma readHeaders_noErr:
  assumes "\<not> errEOF b" and "readHeaders b m = Inr (m', b')"
  shows "\<not> errEOF b'"
  using assms
proof (induction b m rule: readHeaders.induct)
  case (1 reader hs0)
  obtain line e b1 where rs: "ReadString reader LF = (line, e, b1)"
    by (cases "ReadString reader LF")
  from "1.prems"(2) rs have e: "e = None"
    by (cases e) (simp_all add: readHeaders_step_eof)
  with rs have rs': "ReadString reader LF = (line, None, b1)" by simp
  from ReadString_noErr [OF "1.prems"(1) rs] have n1: "\<not> errEOF b1" .
  show ?case
  proof (cases "TrimSpace line = []")
    case True
    with rs' "1.prems"(2) n1 show ?thesis by (simp add: readHeaders_step_blank)
  next
    case False
    show ?thesis
    proof (cases "CHR '':'' \<in> set (TrimSpace line)")
      case c: True
      have len: "\<not> length (SplitN (TrimSpace line) '':'' 2) \<noteq> 2" using c by (simp add: SplitN_char)
      have st: "hs0(TrimSpace (SplitN (TrimSpace line) '':'' 2 ! 0) \<mapsto>
                    TrimSpace (SplitN (TrimSpace line) '':'' 2 ! 1)) = storeHeader hs0 line"
        using c by (simp add: SplitN_char storeHeader_def)
      from "1.prems"(2) readHeaders_step_header [OF rs' False c]
      have rec: "readHeaders b1 (storeHeader hs0 line) = Inr (m', b')" by simp
      from "1.IH" [OF rs' [symmetric] refl refl refl False refl len n1, unfolded st, OF rec]
      show ?thesis .
    next
      case c: False
      from "1.prems"(2) readHeaders_step_bad [OF rs' False c] show ?thesis by simp
    qed
  qed
qed

text \<open>
  A reader whose underlying bytes are all in the buffer, and a reader that has not read
  yet over at most \<open>bufSize\<close> bytes: its first \<open>fill\<close> buffers them all.
\<close>

definition smallReader :: "Reader \<Rightarrow> bool" where
  "smallReader b = (rd b = [] \<and> \<not> errEOF b)"

definition freshSmall :: "Reader \<Rightarrow> bool" where
  "freshSmall b = (\<not> errEOF b \<and> (rd b = [] \<or> (buf b = [] \<and> length (rd b) \<le> bufSize)))"

lemma ReadSlice_small:
  assumes "freshSmall b" and "ReadSlice b d = (frag, e, b')" and "e \<noteq> Some EOF"
  shows "smallReader b'"
  using assms
proof (induction b d rule: ReadSlice.induct)
  case (1 b delim)
  show ?case
  proof (cases "delim \<in> set (buf b) \<or> bufSize \<le> length (buf b)")
    case True
    then have "buf b \<noteq> []" by (auto simp: bufSize_def)
    with True "1.prems" show ?thesis
      by (auto simp: ReadSlice.simps [of b] freshSmall_def smallReader_def split: if_splits)
  next
    case False
    from "1.prems"(1) have ne: "\<not> errEOF b" by (simp add: freshSmall_def)
    with False "1.prems" have r: "ReadSlice (fill b) delim = (frag, e, b')"
      by (simp add: ReadSlice.simps [of b])
    show ?thesis
    proof (cases "rd b = []")
      case True
      then have "errEOF (fill b)" "buf (fill b) = buf b" by (simp_all add: fill_def)
      with r False "1.prems"(3) show ?thesis by (auto simp: ReadSlice.simps [of "fill b"])
    next
      case nr: False
      with "1.prems"(1) have "buf b = []" "length (rd b) \<le> bufSize" by (auto simp: freshSmall_def)
      with ne nr have "freshSmall (fill b)" by (simp add: fill_def freshSmall_def)
      from "1.IH" [OF _ _ _ this r "1.prems"(3)] False ne show ?thesis by simp
    qed
  qed
qed

lemma smallReader_freshSmall: "smallReader b \<Longrightarrow> freshSmall b"
  by (simp add: smallReader_def freshSmall_def)

lemma ReadString_small:
  assumes "freshSmall b" and "ReadString b d = (line, None, b')"
  shows "smallReader b'"
  using assms
proof (induction b d arbitrary: line b' rule: ReadString.induct)
  case (1 b delim)
  obtain frag e1 b1 where rs: "ReadSlice b delim = (frag, e1, b1)" by (cases "ReadSlice b delim")
  show ?case
  proof (cases "e1 = Some ErrBufferFull")
    case True
    with ReadSlice_small [OF "1.prems"(1) rs] have s1: "freshSmall b1"
      by (simp add: smallReader_freshSmall)
    obtain rest e2 b2 where r2: "ReadString b1 delim = (rest, e2, b2)"
      by (cases "ReadString b1 delim")
    from True have c: "e1 \<noteq> None" "\<not> e1 \<noteq> Some ErrBufferFull" by simp_all
    from rs True r2 "1.prems"(2) have "b' = b2" "e2 = None" by (auto simp: ReadString.simps [of b])
    with "1.IH" [OF rs [symmetric] refl c s1] r2 show ?thesis by simp
  next
    case False
    with rs "1.prems"(2) have "b' = b1" "e1 = None"
      by (auto simp: ReadString.simps [of b] split: if_splits)
    with ReadSlice_small [OF "1.prems"(1) rs] show ?thesis by simp
  qed
qed

lemma readHeaders_small:
  assumes "smallReader b" and "readHeaders b m = Inr (m', b')"
  shows "smallReader b'"
  using assms
proof (induction b m rule: readHeaders.induct)
  case (1 reader hs0)
  obtain line e b1 where rs: "ReadString reader LF = (line, e, b1)"
    by (cases "ReadString reader LF")
  from "1.prems"(2) rs have e: "e = None"
    by (cases e) (simp_all add: readHeaders_step_eof)
  with rs have rs': "ReadString reader LF = (line, None, b1)" by simp
  from ReadString_small [OF smallReader_freshSmall [OF "1.prems"(1)] rs'] have n1: "smallReader b1" .
  show ?case
  proof (cases "TrimSpace line = []")
    case True
    with rs' "1.prems"(2) n1 show ?thesis by (simp add: readHeaders_step_blank)
  next
    case False
    show ?thesis
    proof (cases "CHR '':'' \<in> set (TrimSpace line)")
      case c: True
      have len: "\<not> length (SplitN (TrimSpace line) '':'' 2) \<noteq> 2" using c by (simp add: SplitN_char)
      have st: "hs0(TrimSpace (SplitN (TrimSpace line) '':'' 2 ! 0) \<mapsto>
                    TrimSpace (SplitN (TrimSpace line) '':'' 2 ! 1)) = storeHeader hs0 line"
        using c by (simp add: SplitN_char storeHeader_def)
      from "1.prems"(2) readHeaders_step_header [OF rs' False c]
      have rec: "readHeaders b1 (storeHeader hs0 line) = Inr (m', b')" by simp
      from "1.IH" [OF rs' [symmetric] refl refl refl False refl len n1, unfolded st, OF rec]
      show ?thesis .
    next
      case c: False
      from "1.prems"(2) readHeaders_step_bad [OF rs' False c] show ?thesis by simp
    qed
  qed
qed

lemma Read_small:
  assumes "smallReader b" and "length (buf b) \<le> n" and "0 < n"
  shows "Read b n = (if buf b = [] then ([], Some EOF, b) else (buf b, None, b\<lparr>buf := []\<rparr>))"
  using assms by (auto simp: Read_def smallReader_def copyOut_def)

lemma Read_nonempty:
  assumes "\<not> errEOF b" and "buffered b \<noteq> []" and "0 < n"
  shows "\<exists>body b'. Read b n = (body, None, b')"
  using assms by (auto simp: Read_def buffered_def copyOut_def)

lemma Read_empty:
  assumes "\<not> errEOF b" and "buffered b = []" and "0 < n"
  shows "Read b n = ([], Some EOF, b)"
  using assms by (auto simp: Read_def buffered_def copyOut_def)

section \<open>Lemmas about ParseRequest of pkg/http/request.go\<close>

text \<open>The first line of a buffer, with its LF.\<close>

definition firstLine :: "string \<Rightarrow> string" where
  "firstLine data = takeWhile (\<lambda>c. c \<noteq> LF) data @ [LF]"

text \<open>The test \<open>contentLength != ""\<close> on the parsed headers.\<close>

definition hasContentLength :: "(string \<rightharpoonup> string) \<Rightarrow> bool" where
  "hasContentLength hs = ((case hs ''Content-Length'' of None \<Rightarrow> [] | Some v \<Rightarrow> v) \<noteq> [])"

text \<open>What a test reads off a parse result: the three tokens, the values of the named headers and the body.\<close>

definition requestView ::
  "string list \<Rightarrow> parse_error + 'tls Request
    \<Rightarrow> parse_error + (string \<times> string \<times> string \<times> string option list \<times> string)" where
  "requestView ks r =
    (case r of
       Inl e \<Rightarrow> Inl e
     | Inr q \<Rightarrow> Inr (Method q, Path q, Version q, map (Headers q) ks, Body q))"

lemma wfReader_NewReader [simp]: "wfReader (NewReader data)"
  by (simp add: wfReader_def NewReader_def)

lemma buffered_NewReader [simp]: "buffered (NewReader data) = data"
  by (simp add: buffered_def NewReader_def)

lemma ParseRequest_first:
  assumes "LF \<notin> set first"
  shows "\<exists>b1. ReadString (NewReader (first @ LF # tail)) LF = (first @ [LF], None, b1)
          \<and> buffered b1 = tail \<and> wfReader b1 \<and> \<not> errEOF b1
          \<and> (length (first @ LF # tail) \<le> bufSize \<longrightarrow> smallReader b1)"
proof -
  let ?b = "NewReader (first @ LF # tail)"
  from ReadString_line [of ?b first LF tail] assms obtain b1 where
    r: "ReadString ?b LF = (first @ [LF], None, b1)" and b: "buffered b1 = tail" "wfReader b1"
    by auto
  have "\<not> errEOF ?b" by (simp add: NewReader_def)
  from ReadString_noErr [OF this r] have n: "\<not> errEOF b1" .
  have "smallReader b1" if "length (first @ LF # tail) \<le> bufSize"
  proof -
    from that have "freshSmall ?b" by (simp add: freshSmall_def NewReader_def)
    from ReadString_small [OF this r] show ?thesis .
  qed
  with r b n show ?thesis by blast
qed

lemma ParseRequest_bad_request_line:
  assumes "LF \<notin> set first" and "length (Split (TrimSpace (first @ [LF])) '' '') \<noteq> 3"
  shows "ParseRequest (first @ LF # tail) tls = Inl (InvalidRequestLine (TrimSpace (first @ [LF])))"
proof -
  from ParseRequest_first [OF assms(1), of tail] obtain b1 where
    "ReadString (NewReader (first @ LF # tail)) LF = (first @ [LF], None, b1)" by blast
  with assms(2) show ?thesis by (simp add: ParseRequest_def Let_def)
qed

lemma ParseRequest_no_line:
  assumes "LF \<notin> set data"
  shows "ParseRequest data tls = Inl (ErrorReadingRequestLine EOF)"
proof -
  from ReadString_no_line [of "NewReader data" LF] assms obtain line b' where
    "ReadString (NewReader data) LF = (line, Some EOF, b')" by auto
  then show ?thesis by (simp add: ParseRequest_def)
qed

lemma ParseRequest_headers:
  assumes "LF \<notin> set first" and "Split (TrimSpace (first @ [LF])) '' '' = [me, pa, ve]"
  shows "\<exists>b1. buffered b1 = tail \<and> wfReader b1 \<and> \<not> errEOF b1
          \<and> (length (first @ LF # tail) \<le> bufSize \<longrightarrow> smallReader b1)
          \<and> ParseRequest (first @ LF # tail) tls =
              (case readHeaders b1 Map.empty of
                 Inl e \<Rightarrow> Inl e
               | Inr (hs, reader) \<Rightarrow>
                   if hasContentLength hs then
                     (case Read reader (length (first @ LF # tail)) of
                        (bodyBuffer, Some e, reader') \<Rightarrow> Inl (ErrorReadingBody e)
                      | (bodyBuffer, None, reader') \<Rightarrow>
                          Inr \<lparr>Method = me, Path = pa, Version = ve, Headers = hs,
                               Body = bodyBuffer, TLS = tls\<rparr>)
                   else Inr \<lparr>Method = me, Path = pa, Version = ve, Headers = hs,
                             Body = [], TLS = tls\<rparr>)"
proof -
  from ParseRequest_first [OF assms(1), of tail] obtain b1 where
    r: "ReadString (NewReader (first @ LF # tail)) LF = (first @ [LF], None, b1)"
    and b: "buffered b1 = tail" "wfReader b1" "\<not> errEOF b1"
      "length (first @ LF # tail) \<le> bufSize \<longrightarrow> smallReader b1" by blast
  have "ParseRequest (first @ LF # tail) tls =
              (case readHeaders b1 Map.empty of
                 Inl e \<Rightarrow> Inl e
               | Inr (hs, reader) \<Rightarrow>
                   if hasContentLength hs then
                     (case Read reader (length (first @ LF # tail)) of
                        (bodyBuffer, Some e, reader') \<Rightarrow> Inl (ErrorReadingBody e)
                      | (bodyBuffer, None, reader') \<Rightarrow>
                          Inr \<lparr>Method = me, Path = pa, Version = ve, Headers = hs,
                               Body = bodyBuffer, TLS = tls\<rparr>)
                   else Inr \<lparr>Method = me, Path = pa, Version = ve, Headers = hs,
                             Body = [], TLS = tls\<rparr>)"
    using r assms(2)
    by (simp add: ParseRequest_def Let_def hasContentLength_def
        split: sum.splits prod.splits option.splits)
  with b show ?thesis by blast
qed

lemma ParseRequest_lines:
  assumes "LF \<notin> set first" and "Split (TrimSpace (first @ [LF])) '' '' = [me, pa, ve]"
    and "\<forall>h \<in> set hs. headerLineOK h" and "blankLine blank"
  shows "ParseRequest (first @ LF # concat (withLF hs) @ blank @ LF # rest) tls =
     (if hasContentLength (foldl storeHeader Map.empty (withLF hs)) then
        (if rest = [] then Inl (ErrorReadingBody EOF)
         else Inr \<lparr>Method = me, Path = pa, Version = ve,
                   Headers = foldl storeHeader Map.empty (withLF hs),
                   Body = Body (projr (ParseRequest (first @ LF # concat (withLF hs) @ blank @ LF # rest) tls)),
                   TLS = tls\<rparr>)
      else Inr \<lparr>Method = me, Path = pa, Version = ve,
                Headers = foldl storeHeader Map.empty (withLF hs), Body = [], TLS = tls\<rparr>)"
    (is "ParseRequest ?data tls = _")
  and "hasContentLength (foldl storeHeader Map.empty (withLF hs)) \<Longrightarrow> rest \<noteq> [] \<Longrightarrow>
       length (first @ LF # concat (withLF hs) @ blank @ LF # rest) \<le> bufSize \<Longrightarrow>
       Body (projr (ParseRequest (first @ LF # concat (withLF hs) @ blank @ LF # rest) tls)) = rest"
proof -
  let ?tail = "concat (withLF hs) @ blank @ LF # rest"
  let ?m = "foldl storeHeader Map.empty (withLF hs)"
  from ParseRequest_headers [OF assms(1,2), of ?tail tls] obtain b1 where
    b1: "buffered b1 = ?tail" "wfReader b1" "\<not> errEOF b1"
      "length ?data \<le> bufSize \<longrightarrow> smallReader b1"
    and p: "ParseRequest ?data tls =
              (case readHeaders b1 Map.empty of
                 Inl e \<Rightarrow> Inl e
               | Inr (hs, reader) \<Rightarrow>
                   if hasContentLength hs then
                     (case Read reader (length ?data) of
                        (bodyBuffer, Some e, reader') \<Rightarrow> Inl (ErrorReadingBody e)
                      | (bodyBuffer, None, reader') \<Rightarrow>
                          Inr \<lparr>Method = me, Path = pa, Version = ve, Headers = hs,
                               Body = bodyBuffer, TLS = tls\<rparr>)
                   else Inr \<lparr>Method = me, Path = pa, Version = ve, Headers = hs,
                             Body = [], TLS = tls\<rparr>)"
    by blast
  from readHeaders_lines [OF b1(2) b1(1) assms(3,4), of Map.empty] obtain b2 where
    rh: "readHeaders b1 Map.empty = Inr (?m, b2)" and b2: "buffered b2 = rest" "wfReader b2"
    by blast
  from readHeaders_noErr [OF b1(3) rh] have n2: "\<not> errEOF b2" .
  have pos: "0 < length ?data" by simp
  show "ParseRequest ?data tls =
     (if hasContentLength ?m then
        (if rest = [] then Inl (ErrorReadingBody EOF)
         else Inr \<lparr>Method = me, Path = pa, Version = ve, Headers = ?m,
                   Body = Body (projr (ParseRequest ?data tls)), TLS = tls\<rparr>)
      else Inr \<lparr>Method = me, Path = pa, Version = ve, Headers = ?m, Body = [], TLS = tls\<rparr>)"
  proof (cases "hasContentLength ?m")
    case False
    with p rh show ?thesis by simp
  next
    case True
    show ?thesis
    proof (cases "rest = []")
      case e: True
      with Read_empty [OF n2 _ pos] b2 have "Read b2 (length ?data) = ([], Some EOF, b2)" by simp
      with p rh True e show ?thesis by simp
    next
      case ne: False
      with Read_nonempty [OF n2 _ pos] b2 obtain body b3 where
        "Read b2 (length ?data) = (body, None, b3)" by auto
      with p rh True ne show ?thesis by simp
    qed
  qed
  show "Body (projr (ParseRequest ?data tls)) = rest"
    if c: "hasContentLength ?m" and ne: "rest \<noteq> []" and small: "length ?data \<le> bufSize"
  proof -
    from small b1(4) have "smallReader b1" by simp
    from readHeaders_small [OF this rh] have s2: "smallReader b2" .
    with b2 have buf2: "buf b2 = rest" by (simp add: smallReader_def buffered_def)
    then have "length (buf b2) \<le> length ?data" by simp
    from Read_small [OF s2 this pos] buf2 ne
    have "Read b2 (length ?data) = (rest, None, b2\<lparr>buf := []\<rparr>)" by simp
    with p rh c show ?thesis by simp
  qed
qed

lemma list3: "length xs = 3 \<Longrightarrow> xs = [xs ! 0, xs ! 1, xs ! 2]"
  by (cases xs; cases "tl xs"; cases "tl (tl xs)") auto

lemma ParseRequest_Inr:
  assumes "ParseRequest data tls = Inr req"
  shows "\<exists>first hs blank rest.
           data = first @ LF # concat (withLF hs) @ blank @ LF # rest
         \<and> LF \<notin> set first
         \<and> Split (TrimSpace (first @ [LF])) '' '' = [Method req, Path req, Version req]
         \<and> (\<forall>h \<in> set hs. headerLineOK h) \<and> blankLine blank
         \<and> Headers req = foldl storeHeader Map.empty (withLF hs)"
proof -
  have lf: "LF \<in> set data"
  proof (rule ccontr)
    assume "LF \<notin> set data"
    from ParseRequest_no_line [OF this, of tls] assms show False by simp
  qed
  define first where "first = takeWhile (\<lambda>c. c \<noteq> LF) data"
  define tail where "tail = tl (dropWhile (\<lambda>c. c \<noteq> LF) data)"
  from split_first [OF lf] have data: "data = first @ LF # tail" and nf: "LF \<notin> set first"
    by (simp_all add: first_def tail_def)
  have len: "length (Split (TrimSpace (first @ [LF])) '' '') = 3"
  proof (rule ccontr)
    assume "length (Split (TrimSpace (first @ [LF])) '' '') \<noteq> 3"
    from ParseRequest_bad_request_line [OF nf this, of tail tls] assms data show False by simp
  qed
  define parts where "parts = Split (TrimSpace (first @ [LF])) '' ''"
  from list3 [OF len] have parts: "Split (TrimSpace (first @ [LF])) '' '' = [parts ! 0, parts ! 1, parts ! 2]"
    by (simp add: parts_def)
  from ParseRequest_headers [OF nf parts, of tail tls] obtain b1 where
    b1: "buffered b1 = tail" "wfReader b1"
    and p: "ParseRequest (first @ LF # tail) tls =
              (case readHeaders b1 Map.empty of
                 Inl e \<Rightarrow> Inl e
               | Inr (hs, reader) \<Rightarrow>
                   if hasContentLength hs then
                     (case Read reader (length (first @ LF # tail)) of
                        (bodyBuffer, Some e, reader') \<Rightarrow> Inl (ErrorReadingBody e)
                      | (bodyBuffer, None, reader') \<Rightarrow>
                          Inr \<lparr>Method = parts ! 0, Path = parts ! 1, Version = parts ! 2, Headers = hs,
                               Body = bodyBuffer, TLS = tls\<rparr>)
                   else Inr \<lparr>Method = parts ! 0, Path = parts ! 1, Version = parts ! 2, Headers = hs,
                             Body = [], TLS = tls\<rparr>)"
    by blast
  from p assms data obtain m b2 where rh: "readHeaders b1 Map.empty = Inr (m, b2)"
    by (cases "readHeaders b1 Map.empty") auto
  from p assms data rh have fields: "Method req = parts ! 0" "Path req = parts ! 1"
    "Version req = parts ! 2" "Headers req = m"
    by (auto split: if_splits prod.splits option.splits)
  from readHeaders_Inr [OF b1(2) rh] obtain hs blank where
    d: "buffered b1 = concat (withLF hs) @ blank @ LF # buffered b2"
    and ok: "\<forall>h \<in> set hs. headerLineOK h" "blankLine blank"
    and m: "m = foldl storeHeader Map.empty (withLF hs)" by blast
  from data d b1(1) have "data = first @ LF # concat (withLF hs) @ blank @ LF # buffered b2" by simp
  with nf parts fields ok m show ?thesis by auto
qed

lemma example_bad_request_line:
  "ParseRequest (''GET HTTP/1.1'' @ CRLF @ CRLF) tls = Inl (InvalidRequestLine ''GET HTTP/1.1'')"
proof -
  have t: "TrimSpace (''GET HTTP/1.1'' @ [CR] @ [LF]) = ''GET HTTP/1.1''" by code_simp
  have s: "Split ''GET HTTP/1.1'' '' '' = [''GET'', ''HTTP/1.1'']" by code_simp
  have n: "LF \<notin> set (''GET HTTP/1.1'' @ [CR])" by (simp add: LF_def CR_def)
  have d: "''GET HTTP/1.1'' @ CRLF @ CRLF = (''GET HTTP/1.1'' @ [CR]) @ LF # CRLF"
    by (simp add: CRLF_def CR_def LF_def)
  from ParseRequest_bad_request_line [OF n, of CRLF tls] t s show ?thesis
    unfolding d by simp
qed

subsection \<open>Buffers larger than the reader's buffer\<close>

lemma ReadString_in_buf:
  assumes "d \<notin> set l" and "buf b = l @ d # r"
  shows "ReadString b d = (l @ [d], None, b\<lparr>buf := r\<rparr>)"
proof -
  from assms have "ReadSlice b d = (l @ [d], None, b\<lparr>buf := r\<rparr>)"
    by (simp add: ReadSlice.simps [of b] takeWhile_line dropWhile_line)
  then show ?thesis by (simp add: ReadString.simps [of b])
qed

lemma ReadString_fresh:
  assumes "data \<noteq> []"
  shows "ReadString (NewReader data) d
           = ReadString \<lparr>buf = take bufSize data, rd = drop bufSize data, errEOF = False\<rparr> d"
proof -
  have f: "fill (NewReader data) = \<lparr>buf = take bufSize data, rd = drop bufSize data, errEOF = False\<rparr>"
    using assms by (simp add: fill_def NewReader_def)
  have "ReadSlice (NewReader data) d = ReadSlice (fill (NewReader data)) d"
    by (subst ReadSlice.simps) (simp add: NewReader_def bufSize_def)
  then have "ReadSlice (NewReader data) d
      = ReadSlice \<lparr>buf = take bufSize data, rd = drop bufSize data, errEOF = False\<rparr> d"
    unfolding f .
  then show ?thesis
    by (simp add: ReadString.simps [of "NewReader data"]
        ReadString.simps [of "\<lparr>buf = take bufSize data, rd = drop bufSize data, errEOF = False\<rparr>"])
qed

lemma readHeaders_in_buf:
  assumes "buf b = concat (withLF hs) @ blank @ LF # rest"
    and "\<forall>h \<in> set hs. headerLineOK h" and "blankLine blank"
  shows "readHeaders b m = Inr (foldl storeHeader m (withLF hs), b\<lparr>buf := rest\<rparr>)"
  using assms
proof (induction hs arbitrary: b m)
  case Nil
  then have "buf b = blank @ LF # rest" "LF \<notin> set blank" "TrimSpace (blank @ [LF]) = []"
    by (simp_all add: blankLine_def withLF_def)
  from ReadString_in_buf [OF this(2,1)] this(3) show ?case
    by (simp add: readHeaders_step_blank withLF_def)
next
  case (Cons h hs)
  from Cons.prems(2) have h: "LF \<notin> set h" "TrimSpace (h @ [LF]) \<noteq> []"
    "CHR '':'' \<in> set (TrimSpace (h @ [LF]))" by (simp_all add: headerLineOK_def)
  from Cons.prems(1) have "buf b = h @ LF # (concat (withLF hs) @ blank @ LF # rest)"
    by (simp add: withLF_def)
  from ReadString_in_buf [OF h(1) this]
  have r: "ReadString b LF = (h @ [LF], None, b\<lparr>buf := concat (withLF hs) @ blank @ LF # rest\<rparr>)" .
  from Cons.prems(2) have ok: "\<forall>h \<in> set hs. headerLineOK h" by simp
  from Cons.IH [of "b\<lparr>buf := concat (withLF hs) @ blank @ LF # rest\<rparr>", OF _ ok Cons.prems(3),
      of "storeHeader m (h @ [LF])"]
  show ?case
    by (simp add: readHeaders_step_header [OF r h(2) h(3)] withLF_def)
qed

text \<open>
  The body a buffer of any size gets when its header block, blank line included, is
  shorter than the reader's buffer: what the first \<open>fill\<close> buffered of the remainder.
\<close>

lemma ParseRequest_buffered:
  assumes "LF \<notin> set first" and "Split (TrimSpace (first @ [LF])) '' '' = [me, pa, ve]"
    and "\<forall>h \<in> set hs. headerLineOK h" and "blankLine blank"
    and "hasContentLength (foldl storeHeader Map.empty (withLF hs))"
    and "length (first @ LF # concat (withLF hs) @ blank @ [LF]) < bufSize" and "rest \<noteq> []"
  shows "ParseRequest (first @ LF # concat (withLF hs) @ blank @ LF # rest) tls =
     Inr \<lparr>Method = me, Path = pa, Version = ve,
          Headers = foldl storeHeader Map.empty (withLF hs),
          Body = take (bufSize - length (first @ LF # concat (withLF hs) @ blank @ [LF])) rest,
          TLS = tls\<rparr>"
proof -
  let ?data = "first @ LF # concat (withLF hs) @ blank @ LF # rest"
  let ?s0 = "\<lparr>buf = take bufSize ?data, rd = drop bufSize ?data, errEOF = False\<rparr>"
  define head where "head = first @ LF # concat (withLF hs) @ blank @ [LF]"
  define rest1 where "rest1 = take (bufSize - length head) rest"
  have d: "?data = head @ rest" by (simp add: head_def)
  have hl: "length head < bufSize" using assms(6) by (simp add: head_def)
  have "take bufSize (head @ rest) = head @ rest1" using hl by (simp add: rest1_def)
  then have t: "take bufSize ?data = first @ LF # (concat (withLF hs) @ blank @ LF # rest1)"
    unfolding d by (simp add: head_def)
  have "ReadString (NewReader ?data) LF = ReadString ?s0 LF"
    by (rule ReadString_fresh) simp
  also have "\<dots> = (first @ [LF], None, ?s0\<lparr>buf := concat (withLF hs) @ blank @ LF # rest1\<rparr>)"
    by (rule ReadString_in_buf [OF assms(1)]) (simp only: Reader.select_convs t)
  finally have r: "ReadString (NewReader ?data) LF
      = (first @ [LF], None, ?s0\<lparr>buf := concat (withLF hs) @ blank @ LF # rest1\<rparr>)" .
  let ?s1 = "?s0\<lparr>buf := concat (withLF hs) @ blank @ LF # rest1\<rparr>"
  have rh: "readHeaders ?s1 Map.empty
      = Inr (foldl storeHeader Map.empty (withLF hs), ?s1\<lparr>buf := rest1\<rparr>)"
    by (rule readHeaders_in_buf [OF _ assms(3,4)]) simp
  from hl assms(7) have ne: "rest1 \<noteq> []" by (simp add: rest1_def)
  have "length rest1 \<le> length ?data" by (simp add: rest1_def)
  with ne have rd: "Read (?s1\<lparr>buf := rest1\<rparr>) (length ?data)
      = (rest1, None, ?s1\<lparr>buf := []\<rparr>)"
    by (simp add: Read_def copyOut_def)
  from assms(5) have c: "(case foldl storeHeader Map.empty (withLF hs) ''Content-Length'' of
       None \<Rightarrow> [] | Some v \<Rightarrow> v) \<noteq> []"
    by (simp add: hasContentLength_def)
  have "ParseRequest ?data tls =
     Inr \<lparr>Method = me, Path = pa, Version = ve,
          Headers = foldl storeHeader Map.empty (withLF hs), Body = rest1, TLS = tls\<rparr>"
    unfolding ParseRequest_def r
    using assms(2) rh rd c by (simp add: Let_def)
  then show ?thesis by (simp only: rest1_def head_def)
qed

section \<open>Lemmas about ParseRequest of unnamed/part_005\<close>

lemma Index_None_iff: "Index s sep = None \<longleftrightarrow> \<not> (\<exists>a b. s = a @ sep @ b)"
proof (induction s)
  case Nil
  then show ?case by auto
next
  case (Cons c cs)
  have "(\<exists>a b. c # cs = a @ sep @ b) \<longleftrightarrow> HasPrefix (c # cs) sep \<or> (\<exists>a b. cs = a @ sep @ b)"
  proof
    assume "\<exists>a b. c # cs = a @ sep @ b"
    then obtain a b where ab: "c # cs = a @ sep @ b" by blast
    show "HasPrefix (c # cs) sep \<or> (\<exists>a b. cs = a @ sep @ b)"
    proof (cases a)
      case Nil
      with ab have "HasPrefix (c # cs) sep" by (simp add: HasPrefix_def)
      then show ?thesis ..
    next
      case (Cons x a')
      with ab have "cs = a' @ sep @ b" by simp
      then show ?thesis by blast
    qed
  next
    assume "HasPrefix (c # cs) sep \<or> (\<exists>a b. cs = a @ sep @ b)"
    then show "\<exists>a b. c # cs = a @ sep @ b"
    proof
      assume "HasPrefix (c # cs) sep"
      then have "c # cs = [] @ sep @ drop (length sep) (c # cs)"
        by (simp add: HasPrefix_def) (metis append_take_drop_id)
      then show ?thesis by blast
    next
      assume "\<exists>a b. cs = a @ sep @ b"
      then obtain a b where "cs = a @ sep @ b" by blast
      then have "c # cs = (c # a) @ sep @ b" by simp
      then show ?thesis by blast
    qed
  qed
  with Cons show ?case by auto
qed

lemma Index_Some:
  "Index s sep = Some m \<Longrightarrow> s = take m s @ sep @ drop (m + length sep) s"
proof (induction s arbitrary: m)
  case Nil
  then show ?case by (simp split: if_splits)
next
  case (Cons c cs)
  show ?case
  proof (cases "HasPrefix (c # cs) sep")
    case True
    with Cons.prems have "m = 0" by simp
    with True show ?thesis by (simp add: HasPrefix_def) (metis append_take_drop_id)
  next
    case False
    with Cons.prems obtain k where k: "Index cs sep = Some k" "m = Suc k" by auto
    from Cons.IH [OF k(1)] k(2) show ?thesis by simp
  qed
qed

lemma SplitN_two:
  "SplitN s sep 2 =
     (case Index s sep of None \<Rightarrow> [s] | Some m \<Rightarrow> [take m s, drop (m + length sep) s])"
  by (simp add: SplitN_def numeral_2_eq_2 split: option.splits)

lemma parseHeaderLines_Inr:
  "parseHeaderLines ls m = Inr m' \<Longrightarrow> \<forall>l \<in> set ls. Index l '': '' \<noteq> None"
  by (induction ls arbitrary: m) (auto simp: SplitN_two Let_def split: option.splits if_splits)

lemma parseHeaderLines_bad:
  "\<forall>l \<in> set pre. Index l '': '' \<noteq> None \<Longrightarrow> Index bad '': '' = None
    \<Longrightarrow> parseHeaderLines (pre @ bad # post) m = Inl (InvalidHeader bad)"
  by (induction pre arbitrary: m) (auto simp: SplitN_two Let_def split: option.splits)

lemma ParseRequest_split_no_separator:
  assumes "\<not> (\<exists>a b. data = a @ CRLF @ CRLF @ b)"
  shows "ParseRequest_split data = Inl NoBodySeparator"
proof -
  from assms have "Index data (CRLF @ CRLF) = None" by (simp add: Index_None_iff)
  then show ?thesis by (simp add: ParseRequest_split_def SplitN_two)
qed

lemma ParseRequest_split_Inr:
  assumes "ParseRequest_split data = Inr req"
  shows "\<exists>m. Index data (CRLF @ CRLF) = Some m
           \<and> data = take m data @ CRLF @ CRLF @ Body req
           \<and> Split (hd (Split (take m data) CRLF)) '' '' = [Method req, Path req, Version req]
           \<and> (\<forall>l \<in> set (tl (Split (take m data) CRLF)). Index l '': '' \<noteq> None)"
proof -
  from assms obtain m where m: "Index data (CRLF @ CRLF) = Some m"
    by (cases "Index data (CRLF @ CRLF)") (auto simp: ParseRequest_split_def SplitN_two)
  let ?lines = "Split (take m data) CRLF"
  from assms m have ne: "\<not> length ?lines < 1"
    and len: "length (Split (?lines ! 0) '' '') = 3"
    by (auto simp: ParseRequest_split_def SplitN_two Let_def split: if_splits)
  then have hd: "?lines ! 0 = hd ?lines" by (cases ?lines) auto
  from assms m ne len obtain hs where hs: "parseHeaderLines (tl ?lines) Map.empty = Inr hs"
    by (cases "parseHeaderLines (tl ?lines) Map.empty")
       (auto simp: ParseRequest_split_def SplitN_two Let_def)
  from assms m ne len hs have req: "req = \<lparr>Method = Split (?lines ! 0) '' '' ! 0,
      Path = Split (?lines ! 0) '' '' ! 1, Version = Split (?lines ! 0) '' '' ! 2,
      Headers = hs, Body = drop (m + length (CRLF @ CRLF)) data, TLS = None\<rparr>"
    by (auto simp: ParseRequest_split_def SplitN_two Let_def)
  from list3 [OF len] req hd
  have "Split (hd ?lines) '' '' = [Method req, Path req, Version req]" by simp
  moreover from Index_Some [OF m] req
  have "data = take m data @ CRLF @ CRLF @ Body req" by simp
  moreover note parseHeaderLines_Inr [OF hs] m
  ultimately show ?thesis by blast
qed

section \<open>Properties of request parsing\<close>

definition example_request :: string where
  "example_request =
    ''GET /index.html HTTP/1.1'' @ CRLF @ ''Host: www.example.com'' @ CRLF
    @ ''User-Agent: X'' @ CRLF @ CRLF"

text \<open>
  C6, as amended. \<open>ParseRequest\<close> of pkg/http/request.go returns a request only for a
  buffer that has a first line ended by LF which, trimmed, is cut by
  \<open>strings.Split(line, " ")\<close> into exactly three pieces, which then are the method, the
  path and the version. The pieces are what single space bytes separate: a piece may
  be empty, and a tab does not separate. When the first line is cut into any other
  number of pieces, parsing fails with the invalid-request-line error; it does for
  \<open>GET HTTP/1.1\r\n\r\n\<close>. On a buffer without any LF it fails with the error for
  reading the request line.
\<close>

theorem ParseRequest_request_line:
  "(ParseRequest data tls = Inr req \<longrightarrow>
      LF \<in> set data
      \<and> Split (TrimSpace (firstLine data)) '' '' = [Method req, Path req, Version req])
   \<and> (LF \<in> set data \<and> length (Split (TrimSpace (firstLine data)) '' '') \<noteq> 3 \<longrightarrow>
        ParseRequest data tls = Inl (InvalidRequestLine (TrimSpace (firstLine data))))
   \<and> (LF \<notin> set data \<longrightarrow> ParseRequest data tls = Inl (ErrorReadingRequestLine EOF))
   \<and> ParseRequest (''GET HTTP/1.1'' @ CRLF @ CRLF) tls
        = Inl (InvalidRequestLine ''GET HTTP/1.1'')"
proof -
  have a: "LF \<in> set data
      \<and> Split (TrimSpace (firstLine data)) '' '' = [Method req, Path req, Version req]"
    if "ParseRequest data tls = Inr req"
  proof -
    from ParseRequest_Inr [OF that] obtain first' hs blank rest where
      d: "data = first' @ LF # concat (withLF hs) @ blank @ LF # rest" "LF \<notin> set first'"
      and s: "Split (TrimSpace (first' @ [LF])) '' '' = [Method req, Path req, Version req]"
      by blast
    from d have "firstLine data = first' @ [LF]" by (simp add: firstLine_def takeWhile_line)
    moreover from d(1) have "LF \<in> set data" by simp
    ultimately show ?thesis using s by simp
  qed
  have b: "ParseRequest data tls = Inl (InvalidRequestLine (TrimSpace (firstLine data)))"
    if lf: "LF \<in> set data" and "length (Split (TrimSpace (firstLine data)) '' '') \<noteq> 3"
  proof -
    define first where "first = takeWhile (\<lambda>c. c \<noteq> LF) data"
    define tail where "tail = tl (dropWhile (\<lambda>c. c \<noteq> LF) data)"
    from split_first [OF lf] have data: "data = first @ LF # tail" and nf: "LF \<notin> set first"
      by (simp_all add: first_def tail_def)
    have fl: "firstLine data = first @ [LF]" by (simp add: firstLine_def first_def)
    from ParseRequest_bad_request_line [OF nf, of tail tls] that(2) data fl show ?thesis by simp
  qed
  from a b ParseRequest_no_line [of data tls] example_bad_request_line [of tls]
  show ?thesis by blast
qed

lemma example_request_parts:
  "LF \<notin> set (''GET /index.html HTTP/1.1'' @ [CR])"
  "Split (TrimSpace ((''GET /index.html HTTP/1.1'' @ [CR]) @ [LF])) '' ''
     = [''GET'', ''/index.html'', ''HTTP/1.1'']"
  "headerLineOK (''Host: www.example.com'' @ [CR])"
  "headerLineOK (''User-Agent: X'' @ [CR])"
  "blankLine [CR]"
  "storeHeader m ((''Host: www.example.com'' @ [CR]) @ [LF]) = m(''Host'' \<mapsto> ''www.example.com'')"
  "storeHeader m ((''User-Agent: X'' @ [CR]) @ [LF]) = m(''User-Agent'' \<mapsto> ''X'')"
proof -
  show "LF \<notin> set (''GET /index.html HTTP/1.1'' @ [CR])" by (simp add: LF_def CR_def)
  show "Split (TrimSpace ((''GET /index.html HTTP/1.1'' @ [CR]) @ [LF])) '' ''
     = [''GET'', ''/index.html'', ''HTTP/1.1'']" by code_simp
  show "headerLineOK (''Host: www.example.com'' @ [CR])" by code_simp
  show "headerLineOK (''User-Agent: X'' @ [CR])" by code_simp
  show "blankLine [CR]" by code_simp
  have "TrimSpace ((''Host: www.example.com'' @ [CR]) @ [LF]) = ''Host: www.example.com''"
    "TrimSpace ''Host'' = ''Host''" "TrimSpace '' www.example.com'' = ''www.example.com''"
    by code_simp+
  then show "storeHeader m ((''Host: www.example.com'' @ [CR]) @ [LF]) = m(''Host'' \<mapsto> ''www.example.com'')"
    by (simp add: storeHeader_def)
  have "TrimSpace ((''User-Agent: X'' @ [CR]) @ [LF]) = ''User-Agent: X''"
    "TrimSpace ''User-Agent'' = ''User-Agent''" "TrimSpace '' X'' = ''X''"
    by code_simp+
  then show "storeHeader m ((''User-Agent: X'' @ [CR]) @ [LF]) = m(''User-Agent'' \<mapsto> ''X'')"
    by (simp add: storeHeader_def)
qed

lemma example_request_parsed:
  "ParseRequest example_request tls =
     Inr \<lparr>Method = ''GET'', Path = ''/index.html'', Version = ''HTTP/1.1'',
          Headers = [''Host'' \<mapsto> ''www.example.com'', ''User-Agent'' \<mapsto> ''X''],
          Body = [], TLS = tls\<rparr>"
proof -
  have d: "example_request =
      (''GET /index.html HTTP/1.1'' @ [CR]) @ LF
        # concat (withLF [''Host: www.example.com'' @ [CR], ''User-Agent: X'' @ [CR]])
        @ [CR] @ LF # []"
    by (simp add: example_request_def CRLF_def CR_def LF_def withLF_def)
  have ok: "\<forall>h \<in> set [''Host: www.example.com'' @ [CR], ''User-Agent: X'' @ [CR]]. headerLineOK h"
    using example_request_parts(3,4) by simp
  have m: "foldl storeHeader Map.empty
             (withLF [''Host: www.example.com'' @ [CR], ''User-Agent: X'' @ [CR]])
           = [''Host'' \<mapsto> ''www.example.com'', ''User-Agent'' \<mapsto> ''X'']"
    unfolding withLF_def
    by (simp only: list.map foldl_Cons foldl_Nil example_request_parts(6,7))
  have c: "\<not> hasContentLength [''Host'' \<mapsto> ''www.example.com'', ''User-Agent'' \<mapsto> ''X'']"
    by (simp add: hasContentLength_def)
  from ParseRequest_lines(1) [OF example_request_parts(1,2) ok example_request_parts(5), of "[]" tls]
  show ?thesis unfolding d [symmetric] m using c by simp
qed

lemma extra_token_line:
  "LF \<in> set (''GET / HTTP/1.1 x'' @ CRLF @ CRLF)"
  "TrimSpace (firstLine (''GET / HTTP/1.1 x'' @ CRLF @ CRLF)) = ''GET / HTTP/1.1 x''"
  "Split ''GET / HTTP/1.1 x'' '' '' = [''GET'', ''/'', ''HTTP/1.1'', ''x'']"
  "LF \<notin> set ''GET HTTP/1.1''"
  by (simp add: CRLF_def LF_def, code_simp, code_simp, simp add: LF_def)

theorem ParseRequest_request_line_witness:
  "LF \<in> set example_request
   \<and> Split (TrimSpace (firstLine example_request)) '' '' = [''GET'', ''/index.html'', ''HTTP/1.1'']
   \<and> ParseRequest (''GET / HTTP/1.1 x'' @ CRLF @ CRLF) (None :: unit option)
       = Inl (InvalidRequestLine ''GET / HTTP/1.1 x'')
   \<and> ParseRequest ''GET HTTP/1.1'' (None :: unit option) = Inl (ErrorReadingRequestLine EOF)"
proof -
  from ParseRequest_request_line [of example_request "None :: unit option"
      "\<lparr>Method = ''GET'', Path = ''/index.html'', Version = ''HTTP/1.1'',
        Headers = [''Host'' \<mapsto> ''www.example.com'', ''User-Agent'' \<mapsto> ''X''],
        Body = [], TLS = None\<rparr>"]
    example_request_parsed [of "None :: unit option"]
  have 1: "LF \<in> set example_request
     \<and> Split (TrimSpace (firstLine example_request)) '' '' = [''GET'', ''/index.html'', ''HTTP/1.1'']"
    by simp
  let ?d = "''GET / HTTP/1.1 x'' @ CRLF @ CRLF"
  have len: "length (Split (TrimSpace (firstLine ?d)) '' '') \<noteq> 3"
    unfolding extra_token_line(2,3) by simp
  from ParseRequest_request_line [of ?d "None :: unit option"] extra_token_line(1) len
  have "ParseRequest ?d (None :: unit option) = Inl (InvalidRequestLine (TrimSpace (firstLine ?d)))"
    by blast
  then have 2: "ParseRequest ?d (None :: unit option) = Inl (InvalidRequestLine ''GET / HTTP/1.1 x'')"
    unfolding extra_token_line(2) .
  from ParseRequest_request_line [of "''GET HTTP/1.1''" "None :: unit option"] extra_token_line(4)
  have 3: "ParseRequest ''GET HTTP/1.1'' (None :: unit option) = Inl (ErrorReadingRequestLine EOF)"
    by blast
  from 1 2 3 show ?thesis by blast
qed

text \<open>
  C6 as stated fails on pkg/http/request.go. The first line \<open>GET  HTTP/1.1\<close>, with two
  spaces, has two whitespace-separated tokens and parses, with an empty path; the
  first line \<open>GET /a<TAB>b HTTP/1.1\<close> has four and parses, with the tab in the path.
\<close>

theorem ParseRequest_request_line_counterexample:
  "whitespaceTokens (''GET  HTTP/1.1'' @ CRLF) = [''GET'', ''HTTP/1.1'']
   \<and> requestView [] (ParseRequest (''GET  HTTP/1.1'' @ CRLF @ CRLF) (None :: unit option))
       = Inr (''GET'', [], ''HTTP/1.1'', [], [])
   \<and> whitespaceTokens (''GET /a'' @ [CHR 0x09] @ ''b HTTP/1.1'' @ CRLF)
       = [''GET'', ''/a'', ''b'', ''HTTP/1.1'']
   \<and> requestView []
        (ParseRequest (''GET /a'' @ [CHR 0x09] @ ''b HTTP/1.1'' @ CRLF @ CRLF) (None :: unit option))
       = Inr (''GET'', ''/a'' @ [CHR 0x09] @ ''b'', ''HTTP/1.1'', [], [])"
  by code_simp

lemma plain_request_line:
  "LF \<notin> set (''GET / HTTP/1.1'' @ [CR])"
  "Split (TrimSpace ((''GET / HTTP/1.1'' @ [CR]) @ [LF])) '' '' = [''GET'', ''/'', ''HTTP/1.1'']"
  "LF \<notin> set ''GET / HTTP/1.1''"
  "Split (TrimSpace (''GET / HTTP/1.1'' @ [LF])) '' '' = [''GET'', ''/'', ''HTTP/1.1'']"
  "blankLine []"
proof -
  show "LF \<notin> set (''GET / HTTP/1.1'' @ [CR])" "LF \<notin> set ''GET / HTTP/1.1''"
    by (simp_all add: LF_def CR_def)
  show "Split (TrimSpace ((''GET / HTTP/1.1'' @ [CR]) @ [LF])) '' '' = [''GET'', ''/'', ''HTTP/1.1'']"
    by code_simp
  show "Split (TrimSpace (''GET / HTTP/1.1'' @ [LF])) '' '' = [''GET'', ''/'', ''HTTP/1.1'']"
    by code_simp
  show "blankLine []" by code_simp
qed

lemma hasContentLength_empty [simp]: "\<not> hasContentLength Map.empty"
  by (simp add: hasContentLength_def)

lemma withLF_Nil [simp]: "withLF [] = []"
  by (simp add: withLF_def)

lemma blankLine_CR: "blankLine [CR]"
proof -
  have "TrimSpace ([CR] @ [LF]) = []" by (rule TrimSpace_spaces) simp
  moreover have "LF \<notin> set [CR]" by (simp add: LF_def CR_def)
  ultimately show ?thesis by (simp add: blankLine_def)
qed

text \<open>
  C5, as amended. \<open>ParseRequest\<close> of pkg/http/request.go returns a request only for a
  buffer that holds, after its LF-terminated first line and any number of header lines,
  an LF-terminated line that is blank once trimmed; on every other buffer it fails (with
  a read error, or a malformed-line error), and on a buffer without any LF the error is
  the one for the request line. \<open>ParseRequest\<close> of unnamed/part_005 fails with the
  missing-body-separator error on every buffer that does not contain CRLF CRLF.
\<close>

theorem ParseRequest_needs_blank_line:
  "(ParseRequest data tls = Inr req \<longrightarrow>
      (\<exists>first hs blank rest.
          data = first @ LF # concat (withLF hs) @ blank @ LF # rest
        \<and> LF \<notin> set first \<and> (\<forall>h \<in> set hs. headerLineOK h) \<and> blankLine blank))
   \<and> (LF \<notin> set data \<longrightarrow> ParseRequest data tls = Inl (ErrorReadingRequestLine EOF))
   \<and> (\<not> (\<exists>a b. data = a @ CRLF @ CRLF @ b) \<longrightarrow>
        ParseRequest_split data = (Inl NoBodySeparator :: parse_error + 'tls Request))"
proof -
  have "\<exists>first hs blank rest.
          data = first @ LF # concat (withLF hs) @ blank @ LF # rest
        \<and> LF \<notin> set first \<and> (\<forall>h \<in> set hs. headerLineOK h) \<and> blankLine blank"
    if "ParseRequest data tls = Inr req"
    using ParseRequest_Inr [OF that] by blast
  then show ?thesis
    using ParseRequest_no_line [of data tls] ParseRequest_split_no_separator [of data]
    by blast
qed

lemma two_LF_parsed:
  "ParseRequest (''GET / HTTP/1.1'' @ [LF, LF]) tls =
     Inr \<lparr>Method = ''GET'', Path = ''/'', Version = ''HTTP/1.1'', Headers = Map.empty,
          Body = [], TLS = tls\<rparr>"
  using ParseRequest_lines(1) [OF plain_request_line(3,4) _ plain_request_line(5), of "[]" "[]" tls]
  by simp

theorem ParseRequest_needs_blank_line_witness:
  "(\<exists>first hs blank rest.
       ''GET / HTTP/1.1'' @ [LF, LF] = first @ LF # concat (withLF hs) @ blank @ LF # rest
     \<and> LF \<notin> set first \<and> (\<forall>h \<in> set hs. headerLineOK h) \<and> blankLine blank)
   \<and> ParseRequest ''GET / HTTP/1.1'' (None :: unit option) = Inl (ErrorReadingRequestLine EOF)
   \<and> ParseRequest_split (''GET / HTTP/1.1'' @ [LF, LF])
       = (Inl NoBodySeparator :: parse_error + unit Request)"
proof -
  have "Index (''GET / HTTP/1.1'' @ [LF, LF]) (CRLF @ CRLF) = None" by code_simp
  then have n: "\<not> (\<exists>a b. ''GET / HTTP/1.1'' @ [LF, LF] = a @ CRLF @ CRLF @ b)"
    unfolding Index_None_iff by simp
  have l: "LF \<notin> set ''GET / HTTP/1.1''" by (simp add: LF_def)
  from ParseRequest_needs_blank_line [of "''GET / HTTP/1.1'' @ [LF, LF]" "None :: unit option"
      "\<lparr>Method = ''GET'', Path = ''/'', Version = ''HTTP/1.1'', Headers = Map.empty,
        Body = [], TLS = None\<rparr>"]
    ParseRequest_needs_blank_line [of "''GET / HTTP/1.1''" "None :: unit option"]
    two_LF_parsed [of "None :: unit option"] n l
  show ?thesis by blast
qed

text \<open>
  C5 as stated fails on pkg/http/request.go: the buffer \<open>GET / HTTP/1.1\n\n\<close> does not
  contain CRLF CRLF (\<open>Index\<close> finds none) and parses, with no header and an empty body.
\<close>

theorem ParseRequest_no_separator_counterexample:
  "Index (''GET / HTTP/1.1'' @ [LF, LF]) (CRLF @ CRLF) = None
   \<and> requestView []
        (ParseRequest (''GET / HTTP/1.1'' @ [LF, LF]) (None :: unit option))
       = Inr (''GET'', ''/'', ''HTTP/1.1'', [], [])"
  by code_simp

text \<open>
  C7, as amended. In pkg/http/request.go every line between the request line and the
  blank line is cut at its first colon, after trimming, into a name and a value, both
  trimmed again, and a later line with the same name overwrites an earlier one; a line
  that is not blank and holds no colon makes parsing fail with the invalid-header
  error; a request line followed directly by the blank line parses with zero headers.
  In unnamed/part_005 the delimiter is colon-space: a request is returned only if every
  header line contains it.
\<close>

theorem ParseRequest_header_lines:
  assumes "LF \<notin> set first" and "Split (TrimSpace (first @ [LF])) '' '' = [me, pa, ve]"
    and "\<forall>h \<in> set hs. headerLineOK h"
  shows "(LF \<notin> set bad \<and> TrimSpace (bad @ [LF]) \<noteq> [] \<and> CHR '':'' \<notin> set (TrimSpace (bad @ [LF]))
            \<longrightarrow> ParseRequest (first @ LF # concat (withLF hs) @ bad @ LF # rest) tls
                  = Inl (InvalidHeader (TrimSpace (bad @ [LF]))))
       \<and> (blankLine blank
            \<and> ParseRequest (first @ LF # concat (withLF hs) @ blank @ LF # rest) tls = Inr req
            \<longrightarrow> Headers req = foldl storeHeader Map.empty (withLF hs))
       \<and> (blankLine blank
            \<longrightarrow> ParseRequest (first @ LF # blank @ LF # rest) tls
                  = Inr \<lparr>Method = me, Path = pa, Version = ve, Headers = Map.empty,
                         Body = [], TLS = tls\<rparr>)
       \<and> (ParseRequest_split data = Inr req'
            \<longrightarrow> (\<exists>m. Index data (CRLF @ CRLF) = Some m
                  \<and> (\<forall>l \<in> set (tl (Split (take m data) CRLF)). \<exists>a b. l = a @ '': '' @ b)))"
proof -
  have a: "ParseRequest (first @ LF # concat (withLF hs) @ bad @ LF # rest) tls
             = Inl (InvalidHeader (TrimSpace (bad @ [LF])))"
    if "LF \<notin> set bad" "TrimSpace (bad @ [LF]) \<noteq> []" "CHR '':'' \<notin> set (TrimSpace (bad @ [LF]))"
  proof -
    from ParseRequest_headers [OF assms(1,2), of "concat (withLF hs) @ bad @ LF # rest" tls]
    obtain b1 where b1: "buffered b1 = concat (withLF hs) @ bad @ LF # rest" "wfReader b1"
      and p: "ParseRequest (first @ LF # concat (withLF hs) @ bad @ LF # rest) tls =
              (case readHeaders b1 Map.empty of
                 Inl e \<Rightarrow> Inl e
               | Inr (hs', reader) \<Rightarrow>
                   if hasContentLength hs' then
                     (case Read reader (length (first @ LF # concat (withLF hs) @ bad @ LF # rest)) of
                        (bodyBuffer, Some e, reader') \<Rightarrow> Inl (ErrorReadingBody e)
                      | (bodyBuffer, None, reader') \<Rightarrow>
                          Inr \<lparr>Method = me, Path = pa, Version = ve, Headers = hs',
                               Body = bodyBuffer, TLS = tls\<rparr>)
                   else Inr \<lparr>Method = me, Path = pa, Version = ve, Headers = hs',
                             Body = [], TLS = tls\<rparr>)"
      by blast
    from readHeaders_bad_line [OF b1(2) b1(1) assms(3) that] p show ?thesis by simp
  qed
  have b: "Headers req = foldl storeHeader Map.empty (withLF hs)"
    if "blankLine blank"
      "ParseRequest (first @ LF # concat (withLF hs) @ blank @ LF # rest) tls = Inr req"
    using ParseRequest_lines(1) [OF assms that(1), of rest tls, unfolded that(2)]
    by (auto split: if_splits dest!: arg_cong [where f = Headers])
  have c: "ParseRequest (first @ LF # blank @ LF # rest) tls
             = Inr \<lparr>Method = me, Path = pa, Version = ve, Headers = Map.empty,
                    Body = [], TLS = tls\<rparr>"
    if "blankLine blank"
    using ParseRequest_lines(1) [OF assms(1,2) _ that, of "[]" rest tls] by simp
  have d: "\<exists>m. Index data (CRLF @ CRLF) = Some m
             \<and> (\<forall>l \<in> set (tl (Split (take m data) CRLF)). \<exists>a b. l = a @ '': '' @ b)"
    if "ParseRequest_split data = Inr req'"
  proof -
    from ParseRequest_split_Inr [OF that] obtain m where
      m: "Index data (CRLF @ CRLF) = Some m"
      and l: "\<forall>l \<in> set (tl (Split (take m data) CRLF)). Index l '': '' \<noteq> None" by blast
    from l have "\<forall>l \<in> set (tl (Split (take m data) CRLF)). \<exists>a b. l = a @ '': '' @ b"
      unfolding Index_None_iff by simp
    with m show ?thesis by blast
  qed
  from a b c d show ?thesis by blast
qed

lemma bad_header_parts:
  "LF \<notin> set (''User-Agent X'' @ [CR])"
  "TrimSpace ((''User-Agent X'' @ [CR]) @ [LF]) = ''User-Agent X''"
  by (simp add: LF_def CR_def, code_simp)

theorem ParseRequest_header_lines_witness:
  "ParseRequest
     (''GET /index.html HTTP/1.1'' @ CRLF @ ''Host: www.example.com'' @ CRLF
        @ ''User-Agent X'' @ CRLF @ CRLF) (None :: unit option)
     = Inl (InvalidHeader ''User-Agent X'')
   \<and> ParseRequest (''GET /index.html HTTP/1.1'' @ CRLF @ CRLF) (None :: unit option)
     = Inr \<lparr>Method = ''GET'', Path = ''/index.html'', Version = ''HTTP/1.1'',
            Headers = Map.empty, Body = [], TLS = None\<rparr>"
proof -
  have ok: "\<forall>h \<in> set [''Host: www.example.com'' @ [CR]]. headerLineOK h"
    using example_request_parts(3) by simp
  have bad: "LF \<notin> set (''User-Agent X'' @ [CR]) \<and> TrimSpace ((''User-Agent X'' @ [CR]) @ [LF]) \<noteq> []
      \<and> CHR '':'' \<notin> set (TrimSpace ((''User-Agent X'' @ [CR]) @ [LF]))"
    unfolding bad_header_parts(2) by (simp add: LF_def CR_def)
  have d1: "''GET /index.html HTTP/1.1'' @ CRLF @ ''Host: www.example.com'' @ CRLF
        @ ''User-Agent X'' @ CRLF @ CRLF
      = (''GET /index.html HTTP/1.1'' @ [CR]) @ LF
          # concat (withLF [''Host: www.example.com'' @ [CR]]) @ (''User-Agent X'' @ [CR]) @ LF # CRLF"
    by (simp add: CRLF_def CR_def LF_def withLF_def)
  have d2: "''GET /index.html HTTP/1.1'' @ CRLF @ CRLF
      = (''GET /index.html HTTP/1.1'' @ [CR]) @ LF # [CR] @ LF # []"
    by (simp add: CRLF_def CR_def LF_def)
  from ParseRequest_header_lines [OF example_request_parts(1,2) ok,
      of "''User-Agent X'' @ [CR]" CRLF "None :: unit option" "[CR]"]
    bad example_request_parts(5)
  have "ParseRequest ((''GET /index.html HTTP/1.1'' @ [CR]) @ LF
          # concat (withLF [''Host: www.example.com'' @ [CR]]) @ (''User-Agent X'' @ [CR]) @ LF # CRLF)
          (None :: unit option)
        = Inl (InvalidHeader (TrimSpace ((''User-Agent X'' @ [CR]) @ [LF])))"
    by blast
  moreover
  from ParseRequest_header_lines [OF example_request_parts(1,2) ok,
      of "''User-Agent X'' @ [CR]" "[]" "None :: unit option" "[CR]"]
    example_request_parts(5)
  have "ParseRequest ((''GET /index.html HTTP/1.1'' @ [CR]) @ LF # [CR] @ LF # [])
          (None :: unit option)
        = Inr \<lparr>Method = ''GET'', Path = ''/index.html'', Version = ''HTTP/1.1'',
            Headers = Map.empty, Body = [], TLS = None\<rparr>"
    by blast
  ultimately show ?thesis
    unfolding d1 [symmetric] d2 [symmetric] bad_header_parts(2) by blast
qed

text \<open>
  C7 as stated fails on pkg/http/request.go: the header line \<open>Host:x\<close> does not contain
  colon-space (\<open>Index\<close> finds none), and the request parses with the header \<open>Host\<close> set
  to \<open>x\<close>.
\<close>

theorem ParseRequest_colon_only_counterexample:
  "Index ''Host:x'' '': '' = None
   \<and> requestView [''Host'']
        (ParseRequest (''GET / HTTP/1.1'' @ CRLF @ ''Host:x'' @ CRLF @ CRLF) (None :: unit option))
       = Inr (''GET'', ''/'', ''HTTP/1.1'', [Some ''x''], [])"
  by code_simp

lemma requestView_Inr:
  assumes "requestView ks r = Inr (me, pa, ve, vs, body)"
  shows "\<exists>q. r = Inr q \<and> Method q = me \<and> Path q = pa \<and> Version q = ve
            \<and> map (Headers q) ks = vs \<and> Body q = body"
  using assms by (cases r) (auto simp: requestView_def)

lemma large_request_parts:
  "headerLineOK (''Content-Length: 5000'' @ [CR])"
  "storeHeader m ((''Content-Length: 5000'' @ [CR]) @ [LF]) = m(''Content-Length'' \<mapsto> ''5000'')"
proof -
  show "headerLineOK (''Content-Length: 5000'' @ [CR])" by code_simp
  have "TrimSpace ((''Content-Length: 5000'' @ [CR]) @ [LF]) = ''Content-Length: 5000''"
    "TrimSpace ''Content-Length'' = ''Content-Length''" "TrimSpace '' 5000'' = ''5000''"
    by code_simp+
  then show "storeHeader m ((''Content-Length: 5000'' @ [CR]) @ [LF]) = m(''Content-Length'' \<mapsto> ''5000'')"
    by (simp add: storeHeader_def)
qed

lemma large_request_parsed:
  "ParseRequest
     (''GET / HTTP/1.1'' @ CRLF @ ''Content-Length: 5000'' @ CRLF @ CRLF @ replicate 5000 (CHR ''a''))
     tls
   = Inr \<lparr>Method = ''GET'', Path = ''/'', Version = ''HTTP/1.1'',
          Headers = [''Content-Length'' \<mapsto> ''5000''],
          Body = replicate 4056 (CHR ''a''), TLS = tls\<rparr>"
proof -
  let ?hs = "[''Content-Length: 5000'' @ [CR]]"
  have d: "''GET / HTTP/1.1'' @ CRLF @ ''Content-Length: 5000'' @ CRLF @ CRLF @ replicate 5000 (CHR ''a'')
      = (''GET / HTTP/1.1'' @ [CR]) @ LF # concat (withLF ?hs) @ [CR] @ LF # replicate 5000 (CHR ''a'')"
    by (simp add: CRLF_def CR_def LF_def withLF_def)
  have ok: "\<forall>h \<in> set ?hs. headerLineOK h" using large_request_parts(1) by simp
  have m: "foldl storeHeader Map.empty (withLF ?hs) = [''Content-Length'' \<mapsto> ''5000'']"
    unfolding withLF_def
    by (simp only: list.map foldl_Cons foldl_Nil large_request_parts(2))
  have c: "hasContentLength (foldl storeHeader Map.empty (withLF ?hs))"
    unfolding m by (simp add: hasContentLength_def)
  have len: "length ((''GET / HTTP/1.1'' @ [CR]) @ LF # concat (withLF ?hs) @ [CR] @ [LF]) = 40"
    by (simp add: withLF_def)
  then have l: "length ((''GET / HTTP/1.1'' @ [CR]) @ LF # concat (withLF ?hs) @ [CR] @ [LF]) < bufSize"
    by (simp add: bufSize_def)
  have ne: "replicate 5000 (CHR ''a'') \<noteq> []" by simp
  from ParseRequest_buffered [OF plain_request_line(1,2) ok blankLine_CR c l ne, of tls]
  show ?thesis unfolding d m len by (simp add: bufSize_def)
qed

text \<open>
  C2, as amended. When \<open>ParseRequest\<close> of pkg/http/request.go returns a request, the
  buffer is a first line, header lines, the first blank line and a remainder. If the
  parsed headers carry a non-empty Content-Length value, whatever it declares, the
  remainder is not empty and, for a buffer of at most 4096 bytes (the size of the
  reader's buffer), the body is the whole remainder, verbatim; if they carry none, the
  body is empty. When \<open>ParseRequest\<close> of unnamed/part_005 returns a request, its body
  is the whole remainder of the buffer after the first CRLF CRLF, whatever the headers
  are.
\<close>

theorem ParseRequest_body:
  assumes "ParseRequest data tls = Inr req"
  shows "(\<exists>first hs blank rest.
            data = first @ LF # concat (withLF hs) @ blank @ LF # rest
          \<and> LF \<notin> set first \<and> (\<forall>h \<in> set hs. headerLineOK h) \<and> blankLine blank
          \<and> (\<not> hasContentLength (Headers req) \<longrightarrow> Body req = [])
          \<and> (hasContentLength (Headers req) \<longrightarrow>
                rest \<noteq> [] \<and> (length data \<le> bufSize \<longrightarrow> Body req = rest)))
       \<and> (ParseRequest_split data' = Inr req' \<longrightarrow>
            (\<exists>m. Index data' (CRLF @ CRLF) = Some m
                \<and> data' = take m data' @ CRLF @ CRLF @ Body req'))"
proof -
  from ParseRequest_Inr [OF assms] obtain first hs blank rest where
    d: "data = first @ LF # concat (withLF hs) @ blank @ LF # rest"
    and nf: "LF \<notin> set first"
    and parts: "Split (TrimSpace (first @ [LF])) '' '' = [Method req, Path req, Version req]"
    and ok: "\<forall>h \<in> set hs. headerLineOK h" and bl: "blankLine blank"
    and hd: "Headers req = foldl storeHeader Map.empty (withLF hs)" by blast
  note l1 = ParseRequest_lines(1) [OF nf parts ok bl, of rest tls, folded d hd, unfolded assms]
  note l2 = ParseRequest_lines(2) [OF nf parts ok bl, of rest tls, folded d hd, unfolded assms]
  have a: "Body req = []" if "\<not> hasContentLength (Headers req)"
    using l1 that by (auto dest!: arg_cong [where f = Body])
  have b: "rest \<noteq> []" if "hasContentLength (Headers req)"
    using l1 that by (auto split: if_splits)
  have c: "Body req = rest" if "hasContentLength (Headers req)" "length data \<le> bufSize"
    using l2 [OF that(1) b [OF that(1)] that(2)] by simp
  have "\<exists>m. Index data' (CRLF @ CRLF) = Some m
                \<and> data' = take m data' @ CRLF @ CRLF @ Body req'"
    if "ParseRequest_split data' = Inr req'"
    using ParseRequest_split_Inr [OF that] by blast
  with d nf ok bl a b c show ?thesis by blast
qed

theorem ParseRequest_body_witness:
  "(\<exists>first hs blank.
       ''POST /echo HTTP/1.1'' @ CRLF @ ''Content-Length: 5'' @ CRLF @ CRLF @ ''Hello, Netrunner!''
         = first @ LF # concat (withLF hs) @ blank @ LF # ''Hello, Netrunner!''
     \<and> LF \<notin> set first \<and> (\<forall>h \<in> set hs. headerLineOK h) \<and> blankLine blank)
   \<and> requestView [''Content-Length'']
        (ParseRequest
           (''POST /echo HTTP/1.1'' @ CRLF @ ''Content-Length: 5'' @ CRLF @ CRLF @ ''Hello, Netrunner!'')
           (None :: unit option))
       = Inr (''POST'', ''/echo'', ''HTTP/1.1'', [Some ''5''], ''Hello, Netrunner!'')
   \<and> (\<exists>m. ''GET / HTTP/1.1'' @ CRLF @ CRLF @ ''hello''
            = take m (''GET / HTTP/1.1'' @ CRLF @ CRLF @ ''hello'') @ CRLF @ CRLF @ ''hello'')"
proof -
  let ?d = "''POST /echo HTTP/1.1'' @ CRLF @ ''Content-Length: 5'' @ CRLF @ CRLF @ ''Hello, Netrunner!''"
  let ?d' = "''GET / HTTP/1.1'' @ CRLF @ CRLF @ ''hello''"
  have v: "requestView [''Content-Length''] (ParseRequest ?d (None :: unit option))
       = Inr (''POST'', ''/echo'', ''HTTP/1.1'', [Some ''5''], ''Hello, Netrunner!'')"
    by code_simp
  from requestView_Inr [OF v] obtain q where
    q: "ParseRequest ?d (None :: unit option) = Inr q" "Headers q ''Content-Length'' = Some ''5''"
      "Body q = ''Hello, Netrunner!''" by auto
  have v': "requestView [] (ParseRequest_split ?d' :: parse_error + unit Request)
       = Inr (''GET'', ''/'', ''HTTP/1.1'', [], ''hello'')"
    by code_simp
  from requestView_Inr [OF v'] obtain q' where
    q': "(ParseRequest_split ?d' :: parse_error + unit Request) = Inr q'" "Body q' = ''hello''"
    by auto
  have c: "hasContentLength (Headers q)" using q(2) by (simp add: hasContentLength_def)
  have s: "length ?d \<le> bufSize" by (simp add: bufSize_def CRLF_def)
  from ParseRequest_body [OF q(1), of ?d' q'] obtain first hs blank rest where
    1: "?d = first @ LF # concat (withLF hs) @ blank @ LF # rest"
      "LF \<notin> set first" "\<forall>h \<in> set hs. headerLineOK h" "blankLine blank"
    and 2: "hasContentLength (Headers q) \<longrightarrow>
              rest \<noteq> [] \<and> (length ?d \<le> bufSize \<longrightarrow> Body q = rest)"
    and 3: "ParseRequest_split ?d' = Inr q' \<longrightarrow>
              (\<exists>m. Index ?d' (CRLF @ CRLF) = Some m
                  \<and> ?d' = take m ?d' @ CRLF @ CRLF @ Body q')"
    by blast
  from 2 c s have "Body q = rest" by blast
  with q(3) have rest: "rest = ''Hello, Netrunner!''" by simp
  from 1 have a: "\<exists>first hs blank.
       ?d = first @ LF # concat (withLF hs) @ blank @ LF # ''Hello, Netrunner!''
     \<and> LF \<notin> set first \<and> (\<forall>h \<in> set hs. headerLineOK h) \<and> blankLine blank"
    unfolding rest by blast
  from 3 q'(1) obtain m where "?d' = take m ?d' @ CRLF @ CRLF @ Body q'" by blast
  then have b: "\<exists>m. ?d' = take m ?d' @ CRLF @ CRLF @ ''hello''" unfolding q'(2) by blast
  from a v b show ?thesis by blast
qed

text \<open>
  C2 as stated fails on pkg/http/request.go. Without a Content-Length header the bytes
  after the separator are not assigned: the body of \<open>GET / HTTP/1.1\r\n\r\nhello\<close> is
  empty. And a body that does not fit in the reader's buffer is cut: of the 5000 bytes
  that follow the 40 bytes of \<open>GET / HTTP/1.1\r\nContent-Length: 5000\r\n\r\n\<close>, the
  body holds the first 4056.
\<close>

theorem ParseRequest_body_counterexample:
  "requestView [''Content-Length'']
     (ParseRequest (''GET / HTTP/1.1'' @ CRLF @ CRLF @ ''hello'') (None :: unit option))
   = Inr (''GET'', ''/'', ''HTTP/1.1'', [None], [])
  \<and> requestView [''Content-Length'']
     (ParseRequest
        (''GET / HTTP/1.1'' @ CRLF @ ''Content-Length: 5000'' @ CRLF @ CRLF @ replicate 5000 (CHR ''a''))
        (None :: unit option))
   = Inr (''GET'', ''/'', ''HTTP/1.1'', [Some ''5000''], replicate 4056 (CHR ''a''))"
proof -
  have "requestView [''Content-Length'']
     (ParseRequest (''GET / HTTP/1.1'' @ CRLF @ CRLF @ ''hello'') (None :: unit option))
   = Inr (''GET'', ''/'', ''HTTP/1.1'', [None], [])" by code_simp
  then show ?thesis
    unfolding large_request_parsed by (simp add: requestView_def)
qed

section \<open>The round trip through the wire format\<close>

text \<open>
  The tokens and header fields that pkg/http/request.go reads back unchanged: they
  begin and end with an ASCII character other than white space (an empty header value
  is read back too), and hold none of the bytes the parser cuts at.
\<close>

definition wfToken :: "string \<Rightarrow> bool" where
  "wfToken s = (trimmed s \<and> CHR '' '' \<notin> set s \<and> LF \<notin> set s)"

definition wfPath :: "string \<Rightarrow> bool" where
  "wfPath p = (CHR '' '' \<notin> set p \<and> LF \<notin> set p)"

definition wfHeader :: "string \<times> string \<Rightarrow> bool" where
  "wfHeader h =
    (trimmed (fst h) \<and> CHR '':'' \<notin> set (fst h) \<and> LF \<notin> set (fst h)
     \<and> (snd h = [] \<or> trimmed (snd h)) \<and> LF \<notin> set (snd h))"

lemma asciiGraphic_colon [simp]: "asciiGraphic (CHR '':'')"
  by (simp add: asciiGraphic_def asciiSpace_def)

lemma TrimSpace_Nil [simp]: "TrimSpace [] = []"
  by (simp add: TrimSpace_def)

lemma TrimSpace_id: "trimmed s \<Longrightarrow> TrimSpace s = s"
  using TrimSpace_trimmed [of s "[]" "[]"] by simp

lemma trimmed_append: "trimmed a \<Longrightarrow> trimmed b \<Longrightarrow> trimmed (a @ m @ b)"
  by (auto simp: trimmed_def)

lemma request_line_trimmed:
  assumes "wfToken me" and "wfToken ve"
  shows "TrimSpace ((me @ '' '' @ pa @ '' '' @ ve @ [CR]) @ [LF]) = me @ '' '' @ pa @ '' '' @ ve"
proof -
  from assms have "trimmed (me @ ('' '' @ pa @ '' '') @ ve)"
    by (intro trimmed_append) (simp_all add: wfToken_def)
  from TrimSpace_trimmed [OF this, of "[]" "[CR, LF]"] show ?thesis by simp
qed

lemma header_line_trimmed:
  assumes "wfHeader (k, v)"
  shows "TrimSpace ((k @ '': '' @ v @ [CR]) @ [LF]) = (if v = [] then k @ '':'' else k @ '': '' @ v)"
proof (cases "v = []")
  case True
  from assms have "trimmed (k @ [] @ '':'')"
    by (intro trimmed_append) (simp_all add: wfHeader_def trimmed_def)
  from TrimSpace_trimmed [OF this, of "[]" "[CHR '' '', CR, LF]"] True show ?thesis by simp
next
  case False
  with assms have "trimmed (k @ '': '' @ v)"
    by (intro trimmed_append) (simp_all add: wfHeader_def)
  from TrimSpace_trimmed [OF this, of "[]" "[CR, LF]"] False show ?thesis by simp
qed

lemma header_line_ok:
  assumes "wfHeader (k, v)"
  shows "headerLineOK (k @ '': '' @ v @ [CR])"
    and "storeHeader m ((k @ '': '' @ v @ [CR]) @ [LF]) = m(k \<mapsto> v)"
proof -
  from assms have k: "trimmed k" "CHR '':'' \<notin> set k" "LF \<notin> set k" "LF \<notin> set v"
    and v: "v = [] \<or> trimmed v" by (simp_all add: wfHeader_def)
  have lf: "LF \<noteq> CHR '':''" "LF \<noteq> CHR '' ''" "LF \<noteq> CR" by (simp_all add: LF_def CR_def)
  from k lf show "headerLineOK (k @ '': '' @ v @ [CR])"
    unfolding headerLineOK_def header_line_trimmed [OF assms] by auto
  have key: "TrimSpace k = k" using k(1) by (rule TrimSpace_id)
  show "storeHeader m ((k @ '': '' @ v @ [CR]) @ [LF]) = m(k \<mapsto> v)"
  proof (cases "v = []")
    case True
    with k(2) key show ?thesis
      unfolding storeHeader_def header_line_trimmed [OF assms]
      by (simp add: takeWhile_line dropWhile_line)
  next
    case False
    with v have "trimmed v" by simp
    from TrimSpace_trimmed [OF this, of "'' ''" "[]"] have "TrimSpace (CHR '' '' # v) = v" by simp
    with False k(2) key show ?thesis
      unfolding storeHeader_def header_line_trimmed [OF assms]
      by (simp add: takeWhile_line dropWhile_line)
  qed
qed

definition wireLine :: "string \<times> string \<Rightarrow> string" where
  "wireLine h = fst h @ '': '' @ snd h @ [CR]"

definition putHeader :: "(string \<rightharpoonup> string) \<Rightarrow> string \<times> string \<Rightarrow> (string \<rightharpoonup> string)" where
  "putHeader m h = m(fst h \<mapsto> snd h)"

lemma foldl_putHeader: "foldl putHeader m hdrs = m ++ map_of (rev hdrs)"
proof (induction hdrs arbitrary: m)
  case Nil
  then show ?case by simp
next
  case (Cons h hdrs)
  have "putHeader m h ++ map_of (rev hdrs) = m ++ map_of (rev (h # hdrs))"
    by (rule ext) (simp add: putHeader_def map_add_def split: option.splits)
  with Cons show ?case by simp
qed

lemma foldl_storeHeader:
  assumes "\<forall>h \<in> set hdrs. wfHeader h"
  shows "foldl storeHeader m (withLF (map wireLine hdrs)) = m ++ map_of (rev hdrs)"
proof -
  have "foldl storeHeader m (withLF (map wireLine hdrs)) = foldl putHeader m hdrs"
    using assms
  proof (induction hdrs arbitrary: m)
    case Nil
    then show ?case by simp
  next
    case (Cons h hdrs)
    obtain k v where h: "h = (k, v)" by (cases h)
    with Cons.prems have "wfHeader (k, v)" by simp
    from header_line_ok(2) [OF this, of m] h
    have s: "storeHeader m (wireLine h @ [LF]) = putHeader m h"
      by (simp add: wireLine_def putHeader_def)
    from Cons.prems have "\<forall>h \<in> set hdrs. wfHeader h" by simp
    from Cons.IH [OF this, of "putHeader m h"]
    have "foldl storeHeader (putHeader m h) (withLF (map wireLine hdrs))
            = foldl putHeader (putHeader m h) hdrs" .
    moreover have "foldl storeHeader m (withLF (map wireLine (h # hdrs)))
            = foldl storeHeader (storeHeader m (wireLine h @ [LF])) (withLF (map wireLine hdrs))"
      by (simp add: withLF_def)
    ultimately show ?case by (simp only: s foldl_Cons)
  qed
  then show ?thesis by (simp add: foldl_putHeader)
qed

lemma serialize_lines:
  "serialize me pa ve hdrs body =
     (me @ '' '' @ pa @ '' '' @ ve @ [CR]) @ LF # concat (withLF (map wireLine hdrs)) @ [CR] @ LF # body"
proof -
  have "concat (map serializeHeader hdrs) = concat (withLF (map wireLine hdrs))"
    by (induction hdrs) (simp_all add: serializeHeader_def wireLine_def withLF_def CRLF_def CR_def LF_def)
  then show ?thesis by (simp add: serialize_def CRLF_def CR_def LF_def)
qed

lemma serialize_parsed:
  assumes "wfToken me" and "wfPath pa" and "wfToken ve" and "\<forall>h \<in> set hdrs. wfHeader h"
    and "body \<noteq> [] \<or> \<not> hasContentLength (map_of (rev hdrs))"
  shows "\<exists>req. ParseRequest (serialize me pa ve hdrs body) tls = Inr req
           \<and> Method req = me \<and> Path req = pa \<and> Version req = ve
           \<and> Headers req = map_of (rev hdrs) \<and> TLS req = tls"
proof -
  let ?first = "me @ '' '' @ pa @ '' '' @ ve @ [CR]"
  from assms(1,2,3) have nf: "LF \<notin> set ?first"
    by (simp add: wfToken_def wfPath_def LF_def CR_def)
  from assms(1,2,3) have parts: "Split (TrimSpace (?first @ [LF])) '' '' = [me, pa, ve]"
    unfolding request_line_trimmed [OF assms(1,3)]
    by (intro Split_three) (simp_all add: wfToken_def wfPath_def)
  have ok: "\<forall>h \<in> set (map wireLine hdrs). headerLineOK h"
  proof
    fix l assume "l \<in> set (map wireLine hdrs)"
    then obtain k v where "(k, v) \<in> set hdrs" "l = wireLine (k, v)" by auto
    with assms(4) header_line_ok(1) [of k v] show "headerLineOK l"
      by (auto simp: wireLine_def)
  qed
  have m: "foldl storeHeader Map.empty (withLF (map wireLine hdrs)) = map_of (rev hdrs)"
    using foldl_storeHeader [OF assms(4), of Map.empty] by simp
  note l = ParseRequest_lines(1) [OF nf parts ok blankLine_CR, of body tls,
      folded serialize_lines, unfolded m]
  from assms(5) l show ?thesis by (auto split: if_splits)
qed

lemma headers_in_order:
  assumes "\<forall>h \<in> set hdrs. wfHeader h" and "validOrder ks (map_of (rev hdrs))"
  defines "hdrs' \<equiv> map (\<lambda>k. (k, the (map_of (rev hdrs) k))) ks"
  shows "\<forall>h \<in> set hdrs'. wfHeader h"
    and "map_of (rev hdrs') = map_of (rev hdrs)"
    and "concat (map serializeHeader hdrs') = concat (map (headerLine (map_of (rev hdrs))) ks)"
proof -
  let ?M = "map_of (rev hdrs)"
  from assms(2) have ks: "set ks = dom ?M" by (simp add: validOrder_def)
  show "\<forall>h \<in> set hdrs'. wfHeader h"
  proof
    fix h assume "h \<in> set hdrs'"
    then obtain k where k: "k \<in> set ks" "h = (k, the (?M k))" by (auto simp: hdrs'_def)
    with ks obtain v where v: "?M k = Some v" by auto
    then have "(k, v) \<in> set hdrs" by (auto dest: map_of_SomeD)
    with assms(1) k v show "wfHeader h" by auto
  qed
  have "rev hdrs' = map (\<lambda>k. (k, the (?M k))) (rev ks)" by (simp add: hdrs'_def rev_map)
  then have "map_of (rev hdrs') = (Some \<circ> (\<lambda>k. the (?M k))) |` set ks"
    by (simp add: map_of_map_restrict)
  also have "\<dots> = ?M"
    by (rule ext) (auto simp: restrict_map_def ks domIff)
  finally show "map_of (rev hdrs') = ?M" .
  have "map serializeHeader hdrs' = map (headerLine ?M) ks"
    using ks by (auto simp: hdrs'_def serializeHeader_def headerLine_def)
  then show "concat (map serializeHeader hdrs') = concat (map (headerLine ?M) ks)" by simp
qed

text \<open>
  C1, as amended. For a request whose method and version are non-empty tokens that
  begin and end with an ASCII character other than white space, whose method, path and
  version hold no space and no LF, whose header names are such tokens without a colon
  and whose header values are empty or begin and end with an ASCII character other than
  white space (none holding an LF), and which has a body whenever it has a non-empty
  Content-Length header: \<open>ParseRequest\<close> of pkg/http/request.go, applied to the bytes of
  the wire format, returns a request with the same method, path and version, and with
  the header mapping in which the last occurrence of a name wins. Writing that request
  out again with its headers in the form the formatter gives them, in any order that
  enumerates the mapping, and parsing the bytes returns the same method, path, version
  and header mapping.
\<close>

theorem serialize_parse_round_trip:
  assumes "wfToken method" and "wfPath path" and "wfToken version"
    and "\<forall>h \<in> set hdrs. wfHeader h"
    and "body \<noteq> [] \<or> \<not> hasContentLength (map_of (rev hdrs))"
  shows "\<exists>req. ParseRequest (serialize method path version hdrs body) tls = Inr req
           \<and> Method req = method \<and> Path req = path \<and> Version req = version
           \<and> Headers req = map_of (rev hdrs)
           \<and> (\<forall>ks. validOrder ks (Headers req) \<longrightarrow>
                (\<exists>req2. ParseRequest
                           (Method req @ '' '' @ Path req @ '' '' @ Version req @ CRLF
                              @ concat (map (headerLine (Headers req)) ks) @ CRLF @ body) tls
                         = Inr req2
                       \<and> Method req2 = method \<and> Path req2 = path \<and> Version req2 = version
                       \<and> Headers req2 = map_of (rev hdrs)))"
proof -
  from serialize_parsed [OF assms, of tls] obtain req where
    req: "ParseRequest (serialize method path version hdrs body) tls = Inr req"
      "Method req = method" "Path req = path" "Version req = version"
      "Headers req = map_of (rev hdrs)" by blast
  have "\<exists>req2. ParseRequest
                  (method @ '' '' @ path @ '' '' @ version @ CRLF
                     @ concat (map (headerLine (map_of (rev hdrs))) ks) @ CRLF @ body) tls
                = Inr req2
              \<and> Method req2 = method \<and> Path req2 = path \<and> Version req2 = version
              \<and> Headers req2 = map_of (rev hdrs)"
    if v: "validOrder ks (map_of (rev hdrs))" for ks
  proof -
    let ?hdrs' = "map (\<lambda>k. (k, the (map_of (rev hdrs) k))) ks"
    note h = headers_in_order [OF assms(4) v]
    from assms(5) h(2) have "body \<noteq> [] \<or> \<not> hasContentLength (map_of (rev ?hdrs'))" by simp
    from serialize_parsed [OF assms(1,2,3) h(1) this, of tls] show ?thesis
      unfolding h(2) serialize_def h(3) by blast
  qed
  with req show ?thesis by auto
qed

theorem serialize_parse_round_trip_witness:
  "\<exists>req. ParseRequest
            (serialize ''GET'' ''/index.html'' ''HTTP/1.1''
               [(''Host'', ''a''), (''Host'', ''www.example.com''), (''User-Agent'', ''X'')] [])
            (None :: unit option) = Inr req
         \<and> Method req = ''GET'' \<and> Path req = ''/index.html'' \<and> Version req = ''HTTP/1.1''
         \<and> Headers req = [''Host'' \<mapsto> ''www.example.com'', ''User-Agent'' \<mapsto> ''X'']
         \<and> (\<exists>req2. ParseRequest
                      (''GET /index.html HTTP/1.1'' @ CRLF @ ''User-Agent: X'' @ CRLF
                         @ ''Host: www.example.com'' @ CRLF @ CRLF) (None :: unit option)
                    = Inr req2
                  \<and> Headers req2 = [''Host'' \<mapsto> ''www.example.com'', ''User-Agent'' \<mapsto> ''X''])"
proof -
  let ?hdrs = "[(''Host'', ''a''), (''Host'', ''www.example.com''), (''User-Agent'', ''X'')]"
  have w: "wfToken ''GET''" "wfPath ''/index.html''" "wfToken ''HTTP/1.1''"
    by code_simp+
  have h: "\<forall>h \<in> set ?hdrs. wfHeader h" by code_simp
  have c: "[] \<noteq> ([] :: string) \<or> \<not> hasContentLength (map_of (rev ?hdrs))" by code_simp
  have m: "map_of (rev ?hdrs) = [''Host'' \<mapsto> ''www.example.com'', ''User-Agent'' \<mapsto> ''X'']"
    by (rule ext) simp
  from serialize_parse_round_trip [OF w h c, of "None :: unit option"] obtain req where
    req: "ParseRequest (serialize ''GET'' ''/index.html'' ''HTTP/1.1'' ?hdrs [])
            (None :: unit option) = Inr req"
      "Method req = ''GET''" "Path req = ''/index.html''" "Version req = ''HTTP/1.1''"
      "Headers req = map_of (rev ?hdrs)"
    and again: "\<forall>ks. validOrder ks (Headers req) \<longrightarrow>
                (\<exists>req2. ParseRequest
                           (Method req @ '' '' @ Path req @ '' '' @ Version req @ CRLF
                              @ concat (map (headerLine (Headers req)) ks) @ CRLF @ [])
                           (None :: unit option)
                         = Inr req2
                       \<and> Method req2 = ''GET'' \<and> Path req2 = ''/index.html''
                       \<and> Version req2 = ''HTTP/1.1''
                       \<and> Headers req2 = map_of (rev ?hdrs))"
    by blast
  have v: "validOrder [''User-Agent'', ''Host''] (Headers req)"
    unfolding req(5) m by (auto simp: validOrder_def)
  have e: "Method req @ '' '' @ Path req @ '' '' @ Version req @ CRLF
             @ concat (map (headerLine (Headers req)) [''User-Agent'', ''Host'']) @ CRLF @ []
           = ''GET /index.html HTTP/1.1'' @ CRLF @ ''User-Agent: X'' @ CRLF
               @ ''Host: www.example.com'' @ CRLF @ CRLF"
    unfolding req m by (simp add: headerLine_def)
  from again v obtain req2 where
    "ParseRequest
       (Method req @ '' '' @ Path req @ '' '' @ Version req @ CRLF
          @ concat (map (headerLine (Headers req)) [''User-Agent'', ''Host'']) @ CRLF @ [])
       (None :: unit option) = Inr req2"
    "Headers req2 = map_of (rev ?hdrs)" by blast
  then have "\<exists>req2. ParseRequest
                      (''GET /index.html HTTP/1.1'' @ CRLF @ ''User-Agent: X'' @ CRLF
                         @ ''Host: www.example.com'' @ CRLF @ CRLF) (None :: unit option)
                    = Inr req2
                  \<and> Headers req2 = [''Host'' \<mapsto> ''www.example.com'', ''User-Agent'' \<mapsto> ''X'']"
    unfolding e m by blast
  with req show ?thesis unfolding m by blast
qed

text \<open>
  C1 as stated fails on pkg/http/request.go. A header value written with a trailing
  space in the wire format is read back without it; and a request with the header
  \<open>Content-Length: 0\<close> and no body, also in the wire format, is not parsed at all.
\<close>

theorem serialize_parse_counterexample:
  "map_of (rev [(''X-Note'', ''padded '')]) ''X-Note'' = Some ''padded ''
   \<and> requestView [''X-Note'']
        (ParseRequest (serialize ''GET'' ''/'' ''HTTP/1.1'' [(''X-Note'', ''padded '')] [])
           (None :: unit option))
       = Inr (''GET'', ''/'', ''HTTP/1.1'', [Some ''padded''], [])
   \<and> requestView []
        (ParseRequest (serialize ''POST'' ''/submit'' ''HTTP/1.1'' [(''Content-Length'', ''0'')] [])
           (None :: unit option))
       = Inl (ErrorReadingBody EOF)"
  by code_simp

section \<open>Properties of the router\<close>

definition req_plain :: "unit Request" where
  "req_plain =
    \<lparr>Method = ''GET'', Path = ''/hello'', Version = ''HTTP/1.1'',
     Headers = [''Host'' \<mapsto> ''example.com''], Body = [], TLS = None\<rparr>"

definition req_static :: "unit Request" where
  "req_static =
    \<lparr>Method = ''GET'', Path = ''/static/a'', Version = ''HTTP/1.1'',
     Headers = Map.empty, Body = [], TLS = None\<rparr>"

definition req_tls :: "unit Request" where
  "req_tls =
    \<lparr>Method = ''GET'', Path = ''/missing'', Version = ''HTTP/1.1'',
     Headers = Map.empty, Body = [], TLS = Some ()\<rparr>"

lemma NotFoundResponse_fields:
  "StatusCode NotFoundResponse = 404"
  "RespBody NotFoundResponse = ''404 - Not Found''"
  "RespStatusText NotFoundResponse = ''Not Found''"
  by (simp_all add: NotFoundResponse_def SetBody_def SetHeader_def NewResponse_def)

lemma lookupHandler_Use [simp]:
  "lookupHandler (routes (Use r mw)) m p = lookupHandler (routes r) m p"
  by (simp add: Use_def)

lemma middleware_Use [simp]: "middleware (Use r mw) = middleware r @ [mw]"
  by (simp add: Use_def)

lemma HandleRequest_no_redirect:
  assumes "TLS req \<noteq> None \<or> HasPrefix (Path req) ''/static/''"
  shows "HandleRequest r req w = HandleRequest_middleware r req w"
  using assms
  by (auto simp: HandleRequest_def HandleRequest_middleware_def shouldRedirectToHTTPS_def)

lemma HandleRequest_middleware_miss:
  assumes "lookupHandler (routes r) (Method req) (Path req) = None"
  shows "HandleRequest_middleware r req w = (NotFoundResponse, w)"
  using assms
  by (auto simp: HandleRequest_middleware_def lookupHandler_def split: option.splits)

lemma HandleRequest_middleware_hit:
  assumes "lookupHandler (routes r) (Method req) (Path req) = Some H"
  shows "HandleRequest_middleware r req w =
     (case applyMiddleware (middleware r) (length (middleware r)) H w of (h, w') \<Rightarrow> h req w')"
  using assms
  by (auto simp: HandleRequest_middleware_def lookupHandler_def split: option.splits)

lemma applyMiddleware_two:
  "applyMiddleware [A, B] 2 H w = (case B H w of (h1, w1) \<Rightarrow> A h1 w1)"
  by (simp add: numeral_2_eq_2 split: prod.splits)

lemma applyMiddleware_three:
  "applyMiddleware [A, B, C] 3 H w =
     (case C H w of (h0, w0) \<Rightarrow> (case B h0 w0 of (h1, w1) \<Rightarrow> A h1 w1))"
  by (simp add: numeral_3_eq_3 split: prod.splits)

text \<open>
  C3, as amended. A request that the router with the HTTPS redirect does not redirect
  (it carries a TLS connection state, or its path begins with \<open>/static/\<close>) and whose
  method and path have no registered handler gets the 404 response, whose body is
  exactly \<open>404 - Not Found\<close>, and no handler or middleware runs. The two routers
  without the redirect answer every unregistered request that way.
\<close>

theorem HandleRequest_unregistered_404:
  assumes "lookupHandler (routes r) (Method req) (Path req) = None"
    and "lookupHandler (basicRoutes rb) (Method req) (Path req) = None"
  shows "(TLS req \<noteq> None \<or> HasPrefix (Path req) ''/static/''
            \<longrightarrow> HandleRequest r req w = (NotFoundResponse, w))
       \<and> HandleRequest_middleware r req w = (NotFoundResponse, w)
       \<and> HandleRequest_basic rb req w = (NotFoundResponse, w)
       \<and> StatusCode NotFoundResponse = 404
       \<and> RespBody NotFoundResponse = ''404 - Not Found''"
proof -
  have "HandleRequest_basic rb req w = (NotFoundResponse, w)"
    using assms(2)
    by (auto simp: HandleRequest_basic_def lookupHandler_def split: option.splits)
  then show ?thesis
    using assms(1)
    by (simp add: HandleRequest_no_redirect HandleRequest_middleware_miss NotFoundResponse_fields)
qed

theorem HandleRequest_unregistered_404_witness:
  "HandleRequest (NewRouter :: (unit, unit) Router) req_tls () = (NotFoundResponse, ())
   \<and> HandleRequest_middleware (NewRouter :: (unit, unit) Router) req_tls () = (NotFoundResponse, ())
   \<and> HandleRequest_basic \<lparr>basicRoutes = Map.empty\<rparr> req_tls () = (NotFoundResponse, ())"
proof -
  have 1: "lookupHandler (routes (NewRouter :: (unit, unit) Router)) (Method req_tls) (Path req_tls) = None"
    by (simp add: lookupHandler_def NewRouter_def)
  have 2: "lookupHandler (basicRoutes (\<lparr>basicRoutes = Map.empty\<rparr> :: (unit, unit) BasicRouter))
             (Method req_tls) (Path req_tls) = None"
    by (simp add: lookupHandler_def)
  have 3: "TLS req_tls \<noteq> None \<or> HasPrefix (Path req_tls) ''/static/''"
    by (simp add: req_tls_def)
  from HandleRequest_unregistered_404 [OF 1 2, of "()"] 3 show ?thesis
    by blast
qed

text \<open>
  C3 as stated fails on the router with the redirect: a plain-HTTP request for a path
  outside \<open>/static/\<close> that no route matches is answered with 301, not 404.
\<close>

theorem HandleRequest_unregistered_counterexample:
  "lookupHandler (routes (NewRouter :: (unit, unit) Router)) (Method req_plain) (Path req_plain) = None
   \<and> StatusCode (fst (HandleRequest (NewRouter :: (unit, unit) Router) req_plain ())) = 301
   \<and> RespBody (fst (HandleRequest (NewRouter :: (unit, unit) Router) req_plain ())) = []"
  by (simp add: lookupHandler_def NewRouter_def HandleRequest_def req_plain_def
      shouldRedirectToHTTPS_def HasPrefix_def redirectToHTTPS_def SetHeader_def
      NewResponse_def MovedPermanently_def)

text \<open>
  C4. A request with no TLS connection state whose path does not begin with
  \<open>/static/\<close> is answered with 301 Moved Permanently and the header
  \<open>Location: https://<Host header><path>\<close> (an absent Host header reads as the empty
  string). The response is the same for every router \<open>r\<close> and the world is returned
  unchanged: the route table is not consulted and no handler or middleware runs.
\<close>

theorem HandleRequest_redirects_plain_http:
  assumes "TLS req = None" and "\<not> HasPrefix (Path req) ''/static/''"
  shows "HandleRequest r req w =
     (\<lparr>RespVersion = ''HTTP/1.1'', StatusCode = 301,
       RespStatusText = ''Moved Permanently'',
       RespHeaders =
         [''Location'' \<mapsto>
            ''https://'' @ (case Headers req ''Host'' of None \<Rightarrow> [] | Some h \<Rightarrow> h) @ Path req],
       RespBody = []\<rparr>, w)"
  using assms
  by (simp add: HandleRequest_def shouldRedirectToHTTPS_def redirectToHTTPS_def SetHeader_def
      NewResponse_def MovedPermanently_def StatusText_def Text_def statusText_def)

theorem HandleRequest_redirects_plain_http_witness:
  "HandleRequest
     (Use (AddRoute NewRouter ''GET'' ''/hello'' (traceHandler NotFoundResponse))
        (traceMiddleware ''A''))
     req_plain []
   = (\<lparr>RespVersion = ''HTTP/1.1'', StatusCode = 301,
       RespStatusText = ''Moved Permanently'',
       RespHeaders = [''Location'' \<mapsto> ''https://example.com/hello''],
       RespBody = []\<rparr>, [])"
proof -
  have 1: "TLS req_plain = None" by (simp add: req_plain_def)
  have 2: "\<not> HasPrefix (Path req_plain) ''/static/''" by (simp add: req_plain_def HasPrefix_def)
  from HandleRequest_redirects_plain_http [OF 1 2] show ?thesis
    by (simp add: req_plain_def)
qed

text \<open>
  C8, as amended. With middleware registered in the order A, B through \<open>Use\<close> and a
  handler H registered for the request's method and path, a dispatch that reaches the
  route table wraps H by B, then the result by A, and runs that composition A(B(H)) on
  the request; the wrapping is done again from the list as it stands at each dispatch
  (after a further \<open>Use C\<close> it is A(B(C(H)))). For middlewares and a handler that log,
  the log reads A-before, B-before, H, B-after, A-after. The router without the
  redirect does so for every request, the router with the redirect for the requests it
  does not redirect (TLS connection state present, or path beginning with \<open>/static/\<close>).
\<close>

theorem HandleRequest_middleware_order:
  assumes "lookupHandler (routes r) (Method req) (Path req) = Some H"
    and "middleware r = []"
    and "lookupHandler (routes rt) (Method reqt) (Path reqt) = Some (traceHandler resp)"
    and "middleware rt = []"
  shows "HandleRequest_middleware (Use (Use r A) B) req w =
           (case B H w of (h1, w1) \<Rightarrow> (case A h1 w1 of (h2, w2) \<Rightarrow> h2 req w2))
       \<and> HandleRequest_middleware (Use (Use (Use r A) B) C) req w =
           (case C H w of (h0, w0) \<Rightarrow>
             (case B h0 w0 of (h1, w1) \<Rightarrow> (case A h1 w1 of (h2, w2) \<Rightarrow> h2 req w2)))
       \<and> HandleRequest_middleware
             (Use (Use rt (traceMiddleware ''A'')) (traceMiddleware ''B'')) reqt l =
           (resp, l @ [''A-before'', ''B-before'', ''H'', ''B-after'', ''A-after''])
       \<and> (TLS req \<noteq> None \<or> HasPrefix (Path req) ''/static/'' \<longrightarrow>
            HandleRequest (Use (Use r A) B) req w =
              (case B H w of (h1, w1) \<Rightarrow> (case A h1 w1 of (h2, w2) \<Rightarrow> h2 req w2))
          \<and> HandleRequest (Use (Use (Use r A) B) C) req w =
              (case C H w of (h0, w0) \<Rightarrow>
                (case B h0 w0 of (h1, w1) \<Rightarrow> (case A h1 w1 of (h2, w2) \<Rightarrow> h2 req w2))))
       \<and> (TLS reqt \<noteq> None \<or> HasPrefix (Path reqt) ''/static/'' \<longrightarrow>
            HandleRequest (Use (Use rt (traceMiddleware ''A'')) (traceMiddleware ''B'')) reqt l =
              (resp, l @ [''A-before'', ''B-before'', ''H'', ''B-after'', ''A-after'']))"
proof -
  have a: "HandleRequest_middleware (Use (Use r A) B) req w =
           (case B H w of (h1, w1) \<Rightarrow> (case A h1 w1 of (h2, w2) \<Rightarrow> h2 req w2))"
    using assms(1,2)
    by (simp add: HandleRequest_middleware_hit applyMiddleware_two split: prod.splits)
  have b: "HandleRequest_middleware (Use (Use (Use r A) B) C) req w =
           (case C H w of (h0, w0) \<Rightarrow>
             (case B h0 w0 of (h1, w1) \<Rightarrow> (case A h1 w1 of (h2, w2) \<Rightarrow> h2 req w2)))"
    using assms(1,2)
    by (simp add: HandleRequest_middleware_hit applyMiddleware_three split: prod.splits)
  have c: "HandleRequest_middleware
             (Use (Use rt (traceMiddleware ''A'')) (traceMiddleware ''B'')) reqt l =
           (resp, l @ [''A-before'', ''B-before'', ''H'', ''B-after'', ''A-after''])"
    using assms(3,4)
    by (simp add: HandleRequest_middleware_hit applyMiddleware_two traceMiddleware_def
        traceHandler_def)
  have d: "HandleRequest rr rq ww = HandleRequest_middleware rr rq ww"
    if "TLS rq \<noteq> None \<or> HasPrefix (Path rq) ''/static/''"
    for rr :: "('x, 'y) Router" and rq ww
    using that by (rule HandleRequest_no_redirect)
  from a b show ?thesis
    using c d [of req] d [of reqt] by metis
qed

theorem HandleRequest_middleware_order_witness:
  "HandleRequest
     (Use (Use (AddRoute NewRouter ''GET'' ''/static/a'' (traceHandler NewResponse))
        (traceMiddleware ''A'')) (traceMiddleware ''B''))
     req_static []
   = (NewResponse, [''A-before'', ''B-before'', ''H'', ''B-after'', ''A-after''])"
proof -
  let ?r = "AddRoute NewRouter ''GET'' ''/static/a'' (traceHandler NewResponse)
              :: (unit, string list) Router"
  have 1: "lookupHandler (routes ?r) (Method req_static) (Path req_static)
             = Some (traceHandler NewResponse)"
    by (simp add: lookupHandler_def AddRoute_def NewRouter_def req_static_def)
  have 2: "middleware ?r = []" by (simp add: AddRoute_def NewRouter_def)
  have 3: "TLS req_static \<noteq> None \<or> HasPrefix (Path req_static) ''/static/''"
    by (simp add: req_static_def HasPrefix_def)
  from HandleRequest_middleware_order [OF 1 2 1 2,
      of "traceMiddleware ''A''" "traceMiddleware ''B''" "[]" "traceMiddleware ''C''" "[]"] 3
  have "HandleRequest (Use (Use ?r (traceMiddleware ''A'')) (traceMiddleware ''B''))
          req_static [] =
        (NewResponse, [] @ [''A-before'', ''B-before'', ''H'', ''B-after'', ''A-after''])"
    by blast
  then show ?thesis by (simp only: append_Nil)
qed

text \<open>
  C8 as stated fails on the router with the redirect: with A and B registered and H
  registered for GET /hello, a plain-HTTP GET /hello is answered by the redirect and
  the log stays empty, while the composition A(B(H)) would have written five entries.
\<close>

theorem HandleRequest_middleware_order_counterexample:
  "HandleRequest
     (Use (Use (AddRoute NewRouter ''GET'' ''/hello'' (traceHandler NewResponse))
        (traceMiddleware ''A'')) (traceMiddleware ''B''))
     req_plain []
    = (redirectToHTTPS NewRouter req_plain, [])
   \<and> (case traceMiddleware ''B'' (traceHandler NewResponse) [] of (h1, w1) \<Rightarrow>
        (case traceMiddleware ''A'' h1 w1 of (h2, w2) \<Rightarrow> h2 req_plain w2))
      = (NewResponse, [''A-before'', ''B-before'', ''H'', ''B-after'', ''A-after''])"
  by (simp add: HandleRequest_def req_plain_def shouldRedirectToHTTPS_def HasPrefix_def
      redirectToHTTPS_def traceMiddleware_def traceHandler_def)

section \<open>Properties of the response builder\<close>

lemma digit_value_digit: "d < 10 \<Longrightarrow> digit_value (digit d) = d"
proof -
  assume "d < 10"
  then have "d \<in> {0, 1, 2, 3, 4, 5, 6, 7, 8, 9}" by auto
  then show ?thesis by (auto simp: digit_value_def digit_def)
qed

lemma decimal_value_snoc: "decimal_value (s @ [c]) = 10 * decimal_value s + digit_value c"
  by (simp add: decimal_value_def)

lemma decimal_value_digits: "decimal_value (digits n) = n"
proof (induction n rule: digits.induct)
  case (1 n)
  show ?case
  proof (cases "n < 10")
    case True
    then show ?thesis
      by (simp add: digits.simps [of n] decimal_value_def digit_value_digit)
  next
    case False
    then have "decimal_value (digits (n div 10)) = n div 10" using 1 by simp
    with False show ?thesis
      by (simp add: digits.simps [of n] decimal_value_snoc digit_value_digit)
  qed
qed

lemma decimal_value_itoa: "decimal_value (itoa (int n)) = n"
  by (simp add: itoa_def decimal_value_digits)

lemma validOrder_split:
  assumes "validOrder ks hs" and "hs k = Some v"
  shows "\<exists>ks1 ks2. ks = ks1 @ [k] @ ks2 \<and> k \<notin> set ks1 \<and> k \<notin> set ks2"
proof -
  from assms have "k \<in> set ks" by (auto simp: validOrder_def)
  then obtain ks1 ks2 where ks: "ks = ks1 @ k # ks2" by (auto simp: in_set_conv_decomp)
  with assms(1) have "k \<notin> set ks1 \<and> k \<notin> set ks2" by (auto simp: validOrder_def)
  with ks show ?thesis by auto
qed

lemma FormatResponse_eq:
  "FormatResponse ks r =
     statusLine (RespVersion r) (StatusCode r) (RespStatusText r)
     @ concat (map (headerLine (RespHeaders r)) ks) @ CRLF @ RespBody r"
  by (simp add: FormatResponse_def Let_def)

text \<open>
  C9. \<open>SetBody r b\<close> sets the body to \<open>b\<close> and writes (or overwrites) the
  Content-Length header with the decimal string of the length of \<open>b\<close>, leaving every
  other header as it was. A later \<open>SetHeader "Content-Length" v\<close> replaces that value,
  and both serializers (\<open>FormatResponse\<close> and \<open>Write\<close>) then emit exactly one
  Content-Length line, which carries \<open>v\<close>, whatever order the map is ranged over.
\<close>

theorem SetBody_ContentLength:
  assumes "validOrder ks (RespHeaders (SetHeader (SetBody r b) ''Content-Length'' v))"
  shows "RespBody (SetBody r b) = b
    \<and> RespHeaders (SetBody r b) = (RespHeaders r)(''Content-Length'' \<mapsto> itoa (int (length b)))
    \<and> decimal_value (itoa (int (length b))) = length b
    \<and> RespHeaders (SetHeader (SetBody r b) ''Content-Length'' v) =
         (RespHeaders r)(''Content-Length'' \<mapsto> v)
    \<and> (\<exists>ks1 ks2. ks = ks1 @ [''Content-Length''] @ ks2
          \<and> ''Content-Length'' \<notin> set ks1 \<and> ''Content-Length'' \<notin> set ks2
          \<and> FormatResponse ks (SetHeader (SetBody r b) ''Content-Length'' v) =
              statusLine (RespVersion r) (StatusCode r) (RespStatusText r)
              @ concat (map (headerLine (RespHeaders r)) ks1)
              @ ''Content-Length: '' @ v @ CRLF
              @ concat (map (headerLine (RespHeaders r)) ks2)
              @ CRLF @ b
          \<and> Write ks (SetHeader (SetBody r b) ''Content-Length'' v) =
              statusLine (RespVersion r) (StatusCode r) (Text (StatusCode r))
              @ concat (map (headerLine (RespHeaders r)) ks1)
              @ ''Content-Length: '' @ v @ CRLF
              @ concat (map (headerLine (RespHeaders r)) ks2)
              @ CRLF @ b)"
proof -
  let ?r2 = "SetHeader (SetBody r b) ''Content-Length'' v"
  have hs: "RespHeaders ?r2 = (RespHeaders r)(''Content-Length'' \<mapsto> v)"
    by (simp add: SetHeader_def SetBody_def)
  have "RespHeaders ?r2 ''Content-Length'' = Some v" by (simp add: hs)
  from validOrder_split [OF assms this] obtain ks1 ks2 where
    ks: "ks = ks1 @ [''Content-Length''] @ ks2" and n1: "''Content-Length'' \<notin> set ks1"
    and n2: "''Content-Length'' \<notin> set ks2" by blast
  have same: "map (headerLine (RespHeaders ?r2)) xs = map (headerLine (RespHeaders r)) xs"
    if "''Content-Length'' \<notin> set xs" for xs
    using that by (induction xs) (auto simp: hs headerLine_def)
  have line: "headerLine (RespHeaders ?r2) ''Content-Length'' = ''Content-Length: '' @ v @ CRLF"
    by (simp add: hs headerLine_def)
  have fields: "RespVersion ?r2 = RespVersion r" "StatusCode ?r2 = StatusCode r"
    "RespStatusText ?r2 = RespStatusText r" "RespBody ?r2 = b"
    by (simp_all add: SetHeader_def SetBody_def)
  have F: "FormatResponse ks ?r2 =
              statusLine (RespVersion r) (StatusCode r) (RespStatusText r)
              @ concat (map (headerLine (RespHeaders r)) ks1)
              @ ''Content-Length: '' @ v @ CRLF
              @ concat (map (headerLine (RespHeaders r)) ks2)
              @ CRLF @ b"
    unfolding FormatResponse_eq fields ks
    by (simp add: same [OF n1] same [OF n2] line)
  have W: "Write ks ?r2 =
              statusLine (RespVersion r) (StatusCode r) (Text (StatusCode r))
              @ concat (map (headerLine (RespHeaders r)) ks1)
              @ ''Content-Length: '' @ v @ CRLF
              @ concat (map (headerLine (RespHeaders r)) ks2)
              @ CRLF @ b"
    unfolding Write_def fields ks
    by (simp add: same [OF n1] same [OF n2] line)
  have a: "RespBody (SetBody r b) = b" by (simp add: SetBody_def SetHeader_def)
  have b: "RespHeaders (SetBody r b) =
             (RespHeaders r)(''Content-Length'' \<mapsto> itoa (int (length b)))"
    by (simp add: SetBody_def SetHeader_def)
  from a b hs ks n1 n2 F W decimal_value_itoa show ?thesis by blast
qed

theorem SetBody_ContentLength_witness:
  "FormatResponse [''Content-Type'', ''Content-Length'']
     (SetHeader
        (SetBody
           (SetHeader (NewResponse\<lparr>StatusCode := 200, RespStatusText := ''OK''\<rparr>)
              ''Content-Type'' ''text/plain'')
           ''Hello, Netrunner!'')
        ''Content-Length'' ''5'')
   = ''HTTP/1.1 200 OK'' @ CRLF @ ''Content-Type: text/plain'' @ CRLF
       @ ''Content-Length: 5'' @ CRLF @ CRLF @ ''Hello, Netrunner!''
   \<and> RespHeaders
        (SetBody
           (SetHeader (NewResponse\<lparr>StatusCode := 200, RespStatusText := ''OK''\<rparr>)
              ''Content-Type'' ''text/plain'')
           ''Hello, Netrunner!'')
        ''Content-Length'' = Some ''17''"
proof -
  let ?r = "SetHeader (NewResponse\<lparr>StatusCode := 200, RespStatusText := ''OK''\<rparr>)
              ''Content-Type'' ''text/plain''"
  have v: "validOrder [''Content-Type'', ''Content-Length'']
             (RespHeaders (SetHeader (SetBody ?r ''Hello, Netrunner!'') ''Content-Length'' ''5''))"
    by (auto simp: validOrder_def SetHeader_def SetBody_def NewResponse_def)
  from SetBody_ContentLength [OF v] obtain ks1 ks2 where
    ks: "[''Content-Type'', ''Content-Length''] = ks1 @ [''Content-Length''] @ ks2"
    and n: "''Content-Length'' \<notin> set ks1" "''Content-Length'' \<notin> set ks2"
    and F: "FormatResponse [''Content-Type'', ''Content-Length'']
              (SetHeader (SetBody ?r ''Hello, Netrunner!'') ''Content-Length'' ''5'') =
              statusLine (RespVersion ?r) (StatusCode ?r) (RespStatusText ?r)
              @ concat (map (headerLine (RespHeaders ?r)) ks1)
              @ ''Content-Length: '' @ ''5'' @ CRLF
              @ concat (map (headerLine (RespHeaders ?r)) ks2)
              @ CRLF @ ''Hello, Netrunner!''"
    and h: "RespHeaders (SetBody ?r ''Hello, Netrunner!'') =
              (RespHeaders ?r)(''Content-Length'' \<mapsto> itoa (int (length ''Hello, Netrunner!'')))"
    by blast
  from ks n have "ks1 = [''Content-Type''] \<and> ks2 = []"
    by (cases ks1; cases ks2) (auto simp: Cons_eq_append_conv)
  with F h show ?thesis
    by (simp add: statusLine_def headerLine_def SetHeader_def NewResponse_def itoa_def
        digits.simps digit_def)
qed

section \<open>Properties of the connection pool\<close>

lemma poolStep_inv:
  "int (length (conns p)) \<le> maxConns p \<Longrightarrow>
     int (length (conns (poolStep p op))) \<le> maxConns (poolStep p op)
     \<and> maxConns (poolStep p op) = maxConns p"
  by (cases op) (auto simp: Get_def Put_def CloseIdleConnections_def split: list.splits)

lemma poolRun_inv:
  "int (length (conns p)) \<le> maxConns p \<Longrightarrow>
     int (length (conns (poolRun p ops))) \<le> maxConns p
     \<and> maxConns (poolRun p ops) = maxConns p"
proof (induction ops arbitrary: p)
  case Nil
  then show ?case by (simp add: poolRun_def)
next
  case (Cons op ops)
  from poolStep_inv [OF Cons.prems, of op]
  have s: "int (length (conns (poolStep p op))) \<le> maxConns (poolStep p op)"
    and m: "maxConns (poolStep p op) = maxConns p" by simp_all
  from Cons.IH [OF s] m show ?case by (simp add: poolRun_def)
qed

text \<open>
  C10. A pool constructed with capacity \<open>C\<close> never stores more than \<open>C\<close> idle
  connections, whatever sequence of \<open>Get\<close>, \<open>Put\<close> and \<open>CloseIdleConnections\<close> calls it
  has served; and a \<open>Put\<close> on a pool that already stores \<open>C\<close> connections closes the
  offered connection (the only one it closes) and leaves the pool as it was. \<open>Put\<close>
  has no error result.
\<close>

theorem ConnPool_capacity:
  assumes "NewConnPool C = Some p0"
  shows "int (length (conns (poolRun p0 ops))) \<le> C
       \<and> (int (length (conns (poolRun p0 ops))) = C \<longrightarrow>
            Put (poolRun p0 ops) c = (poolRun p0 ops, [c]))"
proof -
  from assms have p0: "conns p0 = []" "maxConns p0 = C" "0 \<le> C"
    by (auto simp: NewConnPool_def split: if_splits)
  then have "int (length (conns p0)) \<le> maxConns p0" by simp
  from poolRun_inv [OF this, of ops] p0
  have "int (length (conns (poolRun p0 ops))) \<le> C" "maxConns (poolRun p0 ops) = C"
    by simp_all
  then show ?thesis by (simp add: Put_def)
qed

theorem ConnPool_capacity_witness:
  "NewConnPool 2 = Some (\<lparr>conns = [], maxConns = 2\<rparr> :: nat ConnPool)
   \<and> conns (poolRun \<lparr>conns = [], maxConns = 2\<rparr>
        [OpPut (1::nat), OpPut 2, OpPut 3, OpGet (Inl ()), OpPut 4]) = [2, 4]
   \<and> int (length (conns (poolRun \<lparr>conns = [], maxConns = 2\<rparr>
        [OpPut (1::nat), OpPut 2, OpPut 3, OpGet (Inl ()), OpPut 4]))) \<le> 2
   \<and> Put (poolRun \<lparr>conns = [], maxConns = 2\<rparr>
        [OpPut (1::nat), OpPut 2, OpPut 3, OpGet (Inl ()), OpPut 4]) 5
       = (poolRun \<lparr>conns = [], maxConns = 2\<rparr>
            [OpPut (1::nat), OpPut 2, OpPut 3, OpGet (Inl ()), OpPut 4], [5])"
proof -
  have n: "NewConnPool 2 = Some (\<lparr>conns = [], maxConns = 2\<rparr> :: nat ConnPool)"
    by (simp add: NewConnPool_def)
  have r: "conns (poolRun \<lparr>conns = [], maxConns = 2\<rparr>
             [OpPut (1::nat), OpPut 2, OpPut 3, OpGet (Inl ()), OpPut 4]) = [2, 4]"
    by (simp add: poolRun_def Put_def Get_def)
  from ConnPool_capacity [OF n, of "[OpPut (1::nat), OpPut 2, OpPut 3, OpGet (Inl ()), OpPut 4]" 5]
    n r
  show ?thesis by simp
qed

end
